theory Spec2Isabelle
  imports Main "HOL-Library.Word" "HOL-Library.Signed_Division"
begin

section \<open>Data model of game_of_life.c\<close>

text \<open>
  The four cell states of \<^verbatim>\<open>cell_state_t\<close>. \<^verbatim>\<open>CELL_DYING\<close> and \<^verbatim>\<open>CELL_BIRTH\<close> are the
  marks that \<^verbatim>\<open>simulate_step\<close> leaves between its two passes.
\<close>

datatype cell_state_t = CELL_DEAD | CELL_ALIVE | CELL_DYING | CELL_BIRTH

datatype gol_result_t =
  GOL_SUCCESS | GOL_ERROR_ARGS | GOL_ERROR_FILE | GOL_ERROR_CONFIG | GOL_ERROR_SDL | GOL_ERROR_MEMORY

text \<open>The numeric value of each return code, which \<^verbatim>\<open>main\<close> hands to the process boundary.\<close>

fun result_code :: "gol_result_t \<Rightarrow> int" where
  "result_code GOL_SUCCESS = 0"
| "result_code GOL_ERROR_ARGS = 1"
| "result_code GOL_ERROR_FILE = 2"
| "result_code GOL_ERROR_CONFIG = 3"
| "result_code GOL_ERROR_SDL = 4"
| "result_code GOL_ERROR_MEMORY = 5"

text \<open>
  \<^verbatim>\<open>size_t\<close> values are natural numbers (no arithmetic on them can overflow in the functions
  modelled here: they are only compared and incremented below a bound); \<^verbatim>\<open>int\<close> and
  \<^verbatim>\<open>unsigned int\<close> are 32-bit words.
\<close>

type_synonym c_int = "32 word"
type_synonym c_uint = "32 word"

record gol_config_t =
  cfg_rows :: nat
  cfg_cols :: nat
  steps :: c_uint
  seed :: c_uint
  config_type :: string

text \<open>
  The game context. The window and renderer handles are left out: no function modelled
  here reads them except to pass them to the rendering library.
\<close>

record gol_context_t =
  rows :: nat
  cols :: nat
  grid :: "cell_state_t list list"
  config :: gol_config_t

definition CELL_SIZE :: int where "CELL_SIZE = 8"
definition BUFFER_SIZE :: nat where "BUFFER_SIZE = 2048"
definition FRAME_DELAY_MS :: nat where "FRAME_DELAY_MS = 25"
definition NEIGHBORS_TO_BIRTH :: int where "NEIGHBORS_TO_BIRTH = 3"
definition MIN_NEIGHBORS_TO_SURVIVE :: int where "MIN_NEIGHBORS_TO_SURVIVE = 2"
definition MAX_NEIGHBORS_TO_SURVIVE :: int where "MAX_NEIGHBORS_TO_SURVIVE = 3"

text \<open>
  The grid of a context that \<^verbatim>\<open>allocate_grid\<close> has set up: \<^verbatim>\<open>rows\<close> row arrays of
  \<^verbatim>\<open>cols\<close> cells each.
\<close>

definition grid_ok :: "gol_context_t \<Rightarrow> bool" where
  "grid_ok ctx \<longleftrightarrow>
     length (grid ctx) = rows ctx \<and> list_all (\<lambda>r. length r = cols ctx) (grid ctx)"

text \<open>A grid at rest holds no mark: every cell is dead or alive.\<close>

definition at_rest :: "gol_context_t \<Rightarrow> bool" where
  "at_rest ctx \<longleftrightarrow>
     list_all (list_all (\<lambda>c. c = CELL_DEAD \<or> c = CELL_ALIVE)) (grid ctx)"

text \<open>The assignment \<^verbatim>\<open>ctx->grid[i][j] = v\<close>.\<close>

definition set_cell :: "gol_context_t \<Rightarrow> nat \<Rightarrow> nat \<Rightarrow> cell_state_t \<Rightarrow> gol_context_t" where
  "set_cell ctx i j v = ctx\<lparr>grid := (grid ctx)[i := (grid ctx ! i)[j := v]]\<rparr>"

text \<open>
  The loop \<^verbatim>\<open>for (size_t i = i0; i < n; i++) body\<close>. Every bound in the source is
  \<^verbatim>\<open>ctx->rows\<close> or \<^verbatim>\<open>ctx->cols\<close>, which no loop body assigns, so the bound is a value.
\<close>

function for_loop :: "nat \<Rightarrow> nat \<Rightarrow> (nat \<Rightarrow> 's \<Rightarrow> 's) \<Rightarrow> 's \<Rightarrow> 's" where
  "for_loop i n body s = (if i < n then for_loop (Suc i) n body (body i s) else s)"
  by pat_completeness auto
termination
  by (relation "measure (\<lambda>(i, n, body, s). n - i)") auto

declare for_loop.simps [simp del]

section \<open>Grid model: bounds check and neighbour count\<close>

text \<open>
  The conversion \<^verbatim>\<open>(int)n\<close> of a \<^verbatim>\<open>size_t\<close>: the low 32 bits, read as two's complement
  (what gcc and clang define for a value that does not fit).
\<close>

definition int_of_size :: "nat \<Rightarrow> int" where
  "int_of_size n = sint (word_of_nat n :: c_int)"

definition is_valid_position :: "gol_context_t \<Rightarrow> int \<Rightarrow> int \<Rightarrow> bool" where
  "is_valid_position ctx row col \<longleftrightarrow>
     row \<ge> 0 \<and> row < int_of_size (rows ctx) \<and> col \<ge> 0 \<and> col < int_of_size (cols ctx)"

text \<open>
  One iteration of the inner loop of \<^verbatim>\<open>count_neighbors\<close>, on the pair of the running count
  and the list of grid positions read so far (the list is not in the source: it records
  each evaluation of \<^verbatim>\<open>ctx->grid[nr][nc]\<close>). The sums \<^verbatim>\<open>(int)row + dr\<close> are taken in the
  integers: where the C addition would overflow, the sum is either below zero or above
  every \<^verbatim>\<open>int\<close>, and the wrapped value fails \<^verbatim>\<open>is_valid_position\<close> as well.
\<close>

definition visit_neighbor ::
  "gol_context_t \<Rightarrow> nat \<Rightarrow> nat \<Rightarrow> int \<Rightarrow> int \<Rightarrow> int \<times> (int \<times> int) list \<Rightarrow> int \<times> (int \<times> int) list"
where
  "visit_neighbor ctx row col dr dc acc =
     (if dr = 0 \<and> dc = 0 then acc
      else
        let nr = int_of_size row + dr;
            nc = int_of_size col + dc
        in if is_valid_position ctx nr nc
           then
             let state = grid ctx ! nat nr ! nat nc;
                 reads = snd acc @ [(nr, nc)]
             in if state = CELL_ALIVE \<or> state = CELL_DYING
                then (fst acc + 1, reads) else (fst acc, reads)
           else acc)"

definition count_neighbors_reads ::
  "gol_context_t \<Rightarrow> nat \<Rightarrow> nat \<Rightarrow> int \<times> (int \<times> int) list" where
  "count_neighbors_reads ctx row col =
     fold (\<lambda>dr. fold (\<lambda>dc. visit_neighbor ctx row col dr dc) [-1, 0, 1]) [-1, 0, 1] (0, [])"

definition count_neighbors :: "gol_context_t \<Rightarrow> nat \<Rightarrow> nat \<Rightarrow> int" where
  "count_neighbors ctx row col = fst (count_neighbors_reads ctx row col)"

section \<open>Step engine\<close>

text \<open>The body of the first pair of loops of \<^verbatim>\<open>simulate_step\<close>.\<close>

definition mark_cell :: "nat \<Rightarrow> nat \<Rightarrow> gol_context_t \<Rightarrow> gol_context_t" where
  "mark_cell i j ctx =
     (let neighbors = count_neighbors ctx i j;
          current = grid ctx ! i ! j
      in if current = CELL_ALIVE
         then (if neighbors < MIN_NEIGHBORS_TO_SURVIVE \<or> neighbors > MAX_NEIGHBORS_TO_SURVIVE
               then set_cell ctx i j CELL_DYING else ctx)
         else if current = CELL_DEAD
         then (if neighbors = NEIGHBORS_TO_BIRTH then set_cell ctx i j CELL_BIRTH else ctx)
         else ctx)"

text \<open>The body of the second pair of loops.\<close>

definition apply_cell :: "nat \<Rightarrow> nat \<Rightarrow> gol_context_t \<Rightarrow> gol_context_t" where
  "apply_cell i j ctx =
     (if grid ctx ! i ! j = CELL_DYING then set_cell ctx i j CELL_DEAD
      else if grid ctx ! i ! j = CELL_BIRTH then set_cell ctx i j CELL_ALIVE
      else ctx)"

definition mark_phase :: "gol_context_t \<Rightarrow> gol_context_t" where
  "mark_phase ctx =
     for_loop 0 (rows ctx) (\<lambda>i. for_loop 0 (cols ctx) (\<lambda>j. mark_cell i j)) ctx"

definition apply_phase :: "gol_context_t \<Rightarrow> gol_context_t" where
  "apply_phase ctx =
     for_loop 0 (rows ctx) (\<lambda>i. for_loop 0 (cols ctx) (\<lambda>j. apply_cell i j)) ctx"

definition simulate_step :: "gol_context_t \<Rightarrow> gol_context_t" where
  "simulate_step ctx = apply_phase (mark_phase ctx)"

section \<open>Interaction handler\<close>

text \<open>
  \<^verbatim>\<open>(size_t)(x / CELL_SIZE)\<close>: C division truncates towards zero, and the conversion of a
  negative quotient to the 64-bit \<^verbatim>\<open>size_t\<close> adds \<open>2 ^ 64\<close>.
\<close>

definition size_of_int :: "int \<Rightarrow> nat" where
  "size_of_int q = unat (word_of_int q :: 64 word)"

definition handle_mouse_click :: "gol_context_t \<Rightarrow> c_int \<Rightarrow> c_int \<Rightarrow> gol_context_t" where
  "handle_mouse_click ctx x y =
     (let col = size_of_int (sint x sdiv CELL_SIZE);
          row = size_of_int (sint y sdiv CELL_SIZE)
      in if row < rows ctx \<and> col < cols ctx
         then set_cell ctx row col
                (if grid ctx ! row ! col = CELL_ALIVE then CELL_DEAD else CELL_ALIVE)
         else ctx)"

section \<open>Initializer: random cells\<close>

text \<open>
  The pseudo-random generator of the C library, which the source only calls: \<^verbatim>\<open>srand\<close> sets
  the hidden state from a seed, \<^verbatim>\<open>rand\<close> returns the next number and the next state.
\<close>

record 'g libc_rand =
  srand :: "c_uint \<Rightarrow> 'g"
  rand :: "'g \<Rightarrow> int \<times> 'g"

text \<open>
  The body of the loops of \<^verbatim>\<open>initialize_grid_random\<close>: \<^verbatim>\<open>(rand() % 2) ? CELL_ALIVE : CELL_DEAD\<close>,
  with the remainder of C.
\<close>

definition random_cell :: "'g libc_rand \<Rightarrow> nat \<Rightarrow> nat \<Rightarrow> 'g \<times> gol_context_t \<Rightarrow> 'g \<times> gol_context_t" where
  "random_cell libc i j s =
     (let (r, g) = rand libc (fst s)
      in (g, set_cell (snd s) i j (if r smod 2 \<noteq> 0 then CELL_ALIVE else CELL_DEAD)))"

text \<open>
  \<^verbatim>\<open>initialize_grid_random\<close>, on the state of the generator and the context; \<open>now\<close> is what
  \<^verbatim>\<open>time(NULL)\<close> returns, converted to \<^verbatim>\<open>unsigned int\<close> by truncation.
\<close>

definition initialize_grid_random ::
  "'g libc_rand \<Rightarrow> int \<Rightarrow> 'g \<times> gol_context_t \<Rightarrow> 'g \<times> gol_context_t" where
  "initialize_grid_random libc now s =
     (let ctx = snd s;
          seed0 = seed (config ctx);
          seed1 = (if seed0 = 0 then (word_of_int now :: c_uint) else seed0);
          g = srand libc seed1
      in for_loop 0 (rows ctx) (\<lambda>i. for_loop 0 (cols ctx) (\<lambda>j. random_cell libc i j)) (g, ctx))"

section \<open>Initializer: the manual pattern\<close>

definition newline :: char where "newline = CHR 0x0A"
definition NUL :: char where "NUL = CHR 0x00"

text \<open>
  One call \<^verbatim>\<open>fgets(buffer, n, file)\<close> with \<open>room = n - 1\<close>: the bytes up to and including the
  first newline, at most \<open>room\<close> of them, and the rest of the file.
\<close>

fun read_line :: "nat \<Rightarrow> string \<Rightarrow> string \<times> string" where
  "read_line room [] = ([], [])"
| "read_line room (c # s) =
     (if room = 0 then ([], c # s)
      else if c = newline then ([c], s)
      else let (l, r) = read_line (room - 1) s in (c # l, r))"

text \<open>
  The buffers that the loop \<^verbatim>\<open>while (fgets(buffer, sizeof(buffer), file))\<close> sees, in order:
  \<^verbatim>\<open>fgets\<close> returns \<^verbatim>\<open>NULL\<close> once the file is exhausted. The size of the buffer is
  \<^verbatim>\<open>BUFFER_SIZE\<close> in every call; a buffer of fewer than two bytes holds no byte of the file and
  is given no reads here.
\<close>

function fgets_all :: "nat \<Rightarrow> string \<Rightarrow> string list" where
  "fgets_all bufsize s =
     (if s = [] \<or> bufsize < 2 then []
      else let (buffer, rest) = read_line (bufsize - 1) s in buffer # fgets_all bufsize rest)"
  by pat_completeness auto
termination
proof (relation "measure (\<lambda>(bufsize, s). length s)")
  show "wf (measure (\<lambda>(bufsize, s). length s))" by simp
next
  fix bufsize :: nat and s :: string and x :: "string \<times> string" and buffer rest :: string
  assume a: "\<not> (s = [] \<or> bufsize < 2)" "x = read_line (bufsize - 1) s" "(buffer, rest) = x"
  have "length (snd (read_line n t)) < length t" if "t \<noteq> []" "0 < n" for n t
    using that
  proof (induction t arbitrary: n)
    case Nil
    then show ?case by simp
  next
    case (Cons c t)
    show ?case
    proof (cases "t = [] \<or> n - 1 = 0")
      case True
      then show ?thesis using Cons.prems by (cases t) (auto split: prod.splits)
    next
      case False
      then have "length (snd (read_line (n - 1) t)) < length t"
        using Cons.IH by simp
      then show ?thesis using Cons.prems by (auto split: prod.splits)
    qed
  qed
  moreover have "s \<noteq> []" "0 < bufsize - 1" using a(1) by auto
  moreover have "rest = snd (read_line (bufsize - 1) s)"
    using a(2,3) by (metis snd_conv)
  ultimately show "((bufsize, rest), (bufsize, s)) \<in> measure (\<lambda>(bufsize, s). length s)"
    by simp
qed

declare fgets_all.simps [simp del]

text \<open>The C string in a buffer: the bytes before the first NUL, which \<^verbatim>\<open>strlen\<close> counts.\<close>

definition c_str :: "string \<Rightarrow> string" where
  "c_str buffer = takeWhile (\<lambda>c. c \<noteq> NUL) buffer"

definition is_alive_char :: "char \<Rightarrow> bool" where
  "is_alive_char c \<longleftrightarrow> c = CHR ''1'' \<or> c = CHR ''#'' \<or> c = CHR ''*'' \<or> c = CHR ''X''"

definition is_dead_char :: "char \<Rightarrow> bool" where
  "is_dead_char c \<longleftrightarrow> c = CHR ''0'' \<or> c = CHR ''.'' \<or> c = CHR '' ''"

text \<open>
  The loop \<^verbatim>\<open>for (i = 0; i < strlen(buffer) && col < ctx->cols; i++)\<close> of
  \<^verbatim>\<open>parse_manual_config\<close>, on the characters still to be read.
\<close>

fun parse_row :: "string \<Rightarrow> nat \<Rightarrow> nat \<Rightarrow> gol_context_t \<Rightarrow> gol_context_t" where
  "parse_row [] current_row col ctx = ctx"
| "parse_row (c # cs) current_row col ctx =
     (if col < cols ctx
      then (if is_alive_char c
            then parse_row cs current_row (col + 1) (set_cell ctx current_row col CELL_ALIVE)
            else if is_dead_char c
            then parse_row cs current_row (col + 1) (set_cell ctx current_row col CELL_DEAD)
            else parse_row cs current_row col ctx)
      else ctx)"

text \<open>The local variables of \<^verbatim>\<open>parse_manual_config\<close> that live across the lines, and the context.\<close>

record parse_state =
  in_grid_section :: bool
  current_row :: nat
  pctx :: gol_context_t

text \<open>
  The body of the \<^verbatim>\<open>while\<close> loop for one buffer. \<^verbatim>\<open>strncmp(buffer, "@grid", 5) == 0\<close> holds
  exactly when the first five bytes are \<^verbatim>\<open>@grid\<close>.
\<close>

definition parse_line :: "string \<Rightarrow> parse_state \<Rightarrow> parse_state" where
  "parse_line buffer st =
     (case buffer of
        [] \<Rightarrow> st
      | b0 # _ \<Rightarrow>
          if b0 = newline \<or> b0 = CHR ''#'' then st
          else if take 5 buffer = ''@grid''
          then st\<lparr>in_grid_section := True, current_row := 0\<rparr>
          else if in_grid_section st
          then (if b0 = CHR ''@'' then st
                else if current_row st < rows (pctx st)
                then st\<lparr>pctx := parse_row (c_str buffer) (current_row st) 0 (pctx st),
                        current_row := current_row st + 1\<rparr>
                else st)
          else st)"

text \<open>
  \<^verbatim>\<open>parse_manual_config\<close>: the file is \<open>None\<close> when \<^verbatim>\<open>fopen\<close> fails. The result is the return
  code, the context, and the two numbers of the warning on the error stream, if it is printed.
\<close>

definition parse_manual_config ::
  "string option \<Rightarrow> gol_context_t \<Rightarrow> gol_result_t \<times> gol_context_t \<times> (nat \<times> nat) option" where
  "parse_manual_config file ctx =
     (case file of
        None \<Rightarrow> (GOL_ERROR_FILE, ctx, None)
      | Some content \<Rightarrow>
          let st = fold parse_line (fgets_all BUFFER_SIZE content)
                     \<lparr>in_grid_section = False, current_row = 0, pctx = ctx\<rparr>
          in (GOL_SUCCESS, pctx st,
              if in_grid_section st \<and> current_row st < rows ctx
              then Some (current_row st, rows ctx) else None))"

text \<open>\<^verbatim>\<open>initialize_grid_manual\<close>, which drops the return code of the parser.\<close>

definition initialize_grid_manual :: "gol_context_t \<Rightarrow> string option \<Rightarrow> gol_context_t" where
  "initialize_grid_manual ctx file =
     fst (snd (parse_manual_config file
       (for_loop 0 (rows ctx) (\<lambda>i. for_loop 0 (cols ctx) (\<lambda>j c. set_cell c i j CELL_DEAD)) ctx)))"

section \<open>Simulation loop\<close>

text \<open>The events of the window library that \<^verbatim>\<open>run_simulation\<close> tells apart.\<close>

datatype mouse_button = SDL_BUTTON_LEFT | SDL_BUTTON_OTHER

datatype keycode = SDLK_SPACE | SDLK_r | SDLK_OTHER

datatype sdl_event =
  SDL_QUIT
| SDL_MOUSEBUTTONDOWN mouse_button c_int c_int
| SDL_KEYDOWN keycode
| SDL_OTHER_EVENT

text \<open>What the loop does to the outside: a frame drawn from a grid, a sleep in milliseconds.\<close>

datatype effect = Rendered "cell_state_t list list" | Delayed nat

text \<open>
  The local variables of \<^verbatim>\<open>run_simulation\<close> and the context, with the state of the random
  generator and the effects so far.
\<close>

record 'g sim_state =
  running :: bool
  generation :: c_uint
  sim_ctx :: gol_context_t
  libc_state :: 'g
  effects :: "effect list"

definition CONFIG_RANDOM :: string where "CONFIG_RANDOM = ''random''"

text \<open>The \<^verbatim>\<open>switch\<close> on one polled event.\<close>

definition handle_event :: "'g libc_rand \<Rightarrow> int \<Rightarrow> sdl_event \<Rightarrow> 'g sim_state \<Rightarrow> 'g sim_state" where
  "handle_event libc now event st =
     (case event of
        SDL_QUIT \<Rightarrow> st\<lparr>running := False\<rparr>
      | SDL_MOUSEBUTTONDOWN button x y \<Rightarrow>
          if button = SDL_BUTTON_LEFT
          then st\<lparr>sim_ctx := handle_mouse_click (sim_ctx st) x y\<rparr>
          else st
      | SDL_KEYDOWN key \<Rightarrow>
          if key = SDLK_SPACE then st\<lparr>effects := effects st @ [Delayed 500]\<rparr>
          else if key = SDLK_r
          then (let st' =
                  (if config_type (config (sim_ctx st)) = CONFIG_RANDOM
                   then (let (g, c) = initialize_grid_random libc now (libc_state st, sim_ctx st)
                         in st\<lparr>libc_state := g, sim_ctx := c\<rparr>)
                   else st)
                in st'\<lparr>generation := 0\<rparr>)
          else st
      | SDL_OTHER_EVENT \<Rightarrow> st)"

text \<open>
  One pass through the body of \<^verbatim>\<open>while (running)\<close>, on the events that \<^verbatim>\<open>SDL_PollEvent\<close>
  hands out before it returns 0.
\<close>

definition tick :: "'g libc_rand \<Rightarrow> int \<Rightarrow> sdl_event list \<Rightarrow> 'g sim_state \<Rightarrow> 'g sim_state" where
  "tick libc now evs st =
     (let st1 = fold (handle_event libc now) evs st;
          st2 = st1\<lparr>effects := effects st1 @ [Rendered (grid (sim_ctx st1))]\<rparr>;
          st3 = st2\<lparr>sim_ctx := simulate_step (sim_ctx st2)\<rparr>;
          st4 = st3\<lparr>generation := generation st3 + 1\<rparr>;
          st5 = (if steps (config (sim_ctx st4)) > 0 \<and>
                    generation st4 \<ge> steps (config (sim_ctx st4))
                 then st4\<lparr>running := False\<rparr> else st4)
      in st5\<lparr>effects := effects st5 @ [Delayed FRAME_DELAY_MS]\<rparr>)"

text \<open>The outside of the loop: the events polled in the \<open>n\<close>-th pass, and the time then.\<close>

record sdl_env =
  polled :: "nat \<Rightarrow> sdl_event list"
  clock :: "nat \<Rightarrow> int"

text \<open>The loop itself. It need not end: the result is \<open>None\<close> when it does not.\<close>

partial_function (option) run_loop ::
  "'g libc_rand \<Rightarrow> sdl_env \<Rightarrow> nat \<Rightarrow> 'g sim_state \<Rightarrow> 'g sim_state option" where
  "run_loop libc env n st =
     (if running st
      then run_loop libc env (Suc n) (tick libc (clock env n) (polled env n) st)
      else Some st)"

definition run_simulation ::
  "'g libc_rand \<Rightarrow> sdl_env \<Rightarrow> 'g \<times> gol_context_t \<Rightarrow> (gol_result_t \<times> 'g sim_state) option" where
  "run_simulation libc env s =
     map_option (Pair GOL_SUCCESS)
       (run_loop libc env 0
          \<lparr>running = True, generation = 0, sim_ctx = snd s, libc_state = fst s, effects = []\<rparr>)"

section \<open>Grid allocation\<close>

text \<open>
  \<^verbatim>\<open>allocate_grid\<close> is modelled on a heap of blocks: the array of row pointers and the rows of
  cells. The context here carries the grid as the pointer that the source stores.
\<close>

datatype block = RowPointers "nat option list" | Cells "cell_state_t list"

record heap =
  blocks :: "nat \<Rightarrow> block option"
  brk :: nat
  calls :: nat

record mem_context =
  mrows :: nat
  mcols :: nat
  grid_ptr :: "nat option"

text \<open>
  \<^verbatim>\<open>calloc\<close>: whether the \<open>n\<close>-th call succeeds is given from outside; a successful call hands
  out a fresh address with a zeroed block (\<^verbatim>\<open>CELL_DEAD\<close> is 0, a null pointer is \<open>None\<close>).
\<close>

definition calloc :: "(nat \<Rightarrow> bool) \<Rightarrow> block \<Rightarrow> heap \<Rightarrow> nat option \<times> heap" where
  "calloc succeeds zeroed h =
     (if succeeds (calls h)
      then (Some (Suc (brk h)),
            h\<lparr>blocks := (blocks h)(Suc (brk h) \<mapsto> zeroed), brk := Suc (brk h),
              calls := Suc (calls h)\<rparr>)
      else (None, h\<lparr>calls := Suc (calls h)\<rparr>))"

text \<open>\<^verbatim>\<open>free\<close>, which does nothing on a null pointer.\<close>

definition free_block :: "nat option \<Rightarrow> heap \<Rightarrow> heap" where
  "free_block p h = (case p of None \<Rightarrow> h | Some a \<Rightarrow> h\<lparr>blocks := (blocks h)(a := None)\<rparr>)"

text \<open>Reading and writing \<^verbatim>\<open>ctx->grid[i]\<close>.\<close>

definition row_ptr :: "heap \<Rightarrow> nat \<Rightarrow> nat \<Rightarrow> nat option" where
  "row_ptr h gp i = (case blocks h gp of Some (RowPointers ps) \<Rightarrow> ps ! i | _ \<Rightarrow> None)"

definition store_row_ptr :: "nat \<Rightarrow> nat \<Rightarrow> nat option \<Rightarrow> heap \<Rightarrow> heap" where
  "store_row_ptr gp i p h =
     (case blocks h gp of
        Some (RowPointers ps) \<Rightarrow> h\<lparr>blocks := (blocks h)(gp \<mapsto> RowPointers (ps[i := p]))\<rparr>
      | _ \<Rightarrow> h)"

text \<open>The loop over the rows, from row \<open>i\<close> on, with its clean-up when a row cannot be had.\<close>

function alloc_rows ::
  "(nat \<Rightarrow> bool) \<Rightarrow> nat \<Rightarrow> nat \<Rightarrow> heap \<times> mem_context \<Rightarrow> gol_result_t \<times> heap \<times> mem_context" where
  "alloc_rows succeeds gp i s =
     (let h = fst s; ctx = snd s
      in if i < mrows ctx
         then (let (p, h1) = calloc succeeds (Cells (replicate (mcols ctx) CELL_DEAD)) h;
                   h2 = store_row_ptr gp i p h1
               in case p of
                    None \<Rightarrow>
                      (let h3 = for_loop 0 i (\<lambda>j h. free_block (row_ptr h gp j) h) h2;
                           h4 = free_block (Some gp) h3
                       in (GOL_ERROR_MEMORY, h4, ctx\<lparr>grid_ptr := None\<rparr>))
                  | Some a \<Rightarrow> alloc_rows succeeds gp (Suc i) (h2, ctx))
         else (GOL_SUCCESS, h, ctx))"
  by pat_completeness auto
termination
  by (relation "measure (\<lambda>(succeeds, gp, i, s). mrows (snd s) - i)") auto

declare alloc_rows.simps [simp del]

definition allocate_grid ::
  "(nat \<Rightarrow> bool) \<Rightarrow> heap \<times> mem_context \<Rightarrow> gol_result_t \<times> heap \<times> mem_context" where
  "allocate_grid succeeds s =
     (let (p, h1) = calloc succeeds (RowPointers (replicate (mrows (snd s)) None)) (fst s);
          ctx1 = (snd s)\<lparr>grid_ptr := p\<rparr>
      in case p of
           None \<Rightarrow> (GOL_ERROR_MEMORY, h1, ctx1)
         | Some gp \<Rightarrow> alloc_rows succeeds gp 0 (h1, ctx1))"

text \<open>The grid that the pointers of a context lead to.\<close>

definition grid_of :: "heap \<Rightarrow> mem_context \<Rightarrow> cell_state_t list list option" where
  "grid_of h ctx =
     (case grid_ptr ctx of
        None \<Rightarrow> None
      | Some gp \<Rightarrow>
          (case blocks h gp of
             Some (RowPointers ps) \<Rightarrow>
               Some (map (\<lambda>p. case p of
                                None \<Rightarrow> []
                              | Some a \<Rightarrow> (case blocks h a of Some (Cells cs) \<Rightarrow> cs | _ \<Rightarrow> [])) ps)
           | _ \<Rightarrow> None))"

section \<open>Reference definitions for the step engine\<close>

text \<open>A cell that \<^verbatim>\<open>count_neighbors\<close> counts: alive, or alive and marked to die.\<close>

definition live :: "cell_state_t \<Rightarrow> bool" where
  "live c \<longleftrightarrow> c = CELL_ALIVE \<or> c = CELL_DYING"

text \<open>The mark that the first pass leaves on a cell with \<open>n\<close> counted neighbours.\<close>

definition marked :: "cell_state_t \<Rightarrow> int \<Rightarrow> cell_state_t" where
  "marked c n =
     (if c = CELL_ALIVE then (if n < 2 \<or> n > 3 then CELL_DYING else CELL_ALIVE)
      else if c = CELL_DEAD then (if n = 3 then CELL_BIRTH else CELL_DEAD)
      else c)"

text \<open>What the second pass makes of a cell.\<close>

definition committed :: "cell_state_t \<Rightarrow> cell_state_t" where
  "committed c = (if c = CELL_DYING then CELL_DEAD else if c = CELL_BIRTH then CELL_ALIVE else c)"

text \<open>
  The transition rule of the specification, on a cell of a grid at rest and its neighbour
  count: survival with two or three neighbours, birth with exactly three.
\<close>

definition next_state :: "cell_state_t \<Rightarrow> int \<Rightarrow> cell_state_t" where
  "next_state c n =
     (if c = CELL_ALIVE then (if n < 2 \<or> n > 3 then CELL_DEAD else CELL_ALIVE)
      else if n = 3 then CELL_ALIVE else CELL_DEAD)"

text \<open>
  The reference step of the specification: every cell of the new grid is computed from the
  old grid, which is never written.
\<close>

definition reference_step :: "gol_context_t \<Rightarrow> gol_context_t" where
  "reference_step ctx =
     ctx\<lparr>grid := map (\<lambda>i. map (\<lambda>j. next_state (grid ctx ! i ! j) (count_neighbors ctx i j))
                              [0..<cols ctx]) [0..<rows ctx]\<rparr>"

text \<open>The order in which the loops of \<^verbatim>\<open>simulate_step\<close> visit the grid.\<close>

definition row_major :: "gol_context_t \<Rightarrow> (nat \<times> nat) list" where
  "row_major ctx = concat (map (\<lambda>i. map (Pair i) [0..<cols ctx]) [0..<rows ctx])"

text \<open>The two passes with the visiting order as a parameter.\<close>

definition mark_in_order :: "(nat \<times> nat) list \<Rightarrow> gol_context_t \<Rightarrow> gol_context_t" where
  "mark_in_order ps ctx = fold (\<lambda>(i, j). mark_cell i j) ps ctx"

definition apply_in_order :: "(nat \<times> nat) list \<Rightarrow> gol_context_t \<Rightarrow> gol_context_t" where
  "apply_in_order ps ctx = fold (\<lambda>(i, j). apply_cell i j) ps ctx"

text \<open>
  The state of a pass that rewrites single cells: the cells visited so far hold their new
  value, all others their old one, and nothing but the grid has changed.
\<close>

definition pass_result ::
  "gol_context_t \<Rightarrow> (nat \<times> nat) set \<Rightarrow> (nat \<Rightarrow> nat \<Rightarrow> cell_state_t) \<Rightarrow> gol_context_t \<Rightarrow> bool"
where
  "pass_result ctx0 visited new ctx \<longleftrightarrow>
     ctx = ctx0\<lparr>grid := grid ctx\<rparr> \<and> grid_ok ctx \<and>
     (\<forall>i < rows ctx0. \<forall>j < cols ctx0.
        grid ctx ! i ! j = (if (i, j) \<in> visited then new i j else grid ctx0 ! i ! j))"

section \<open>Reference definitions for the neighbour count\<close>

text \<open>The eight offsets of the Moore neighbourhood.\<close>

definition moore_offsets :: "(int \<times> int) set" where
  "moore_offsets = {-1, 0, 1} \<times> {-1, 0, 1} - {(0, 0)}"

text \<open>
  The offsets whose position \<open>(row + dr, col + dc)\<close> lies in the grid and holds a cell
  that is alive or dying.
\<close>

definition live_neighbors :: "gol_context_t \<Rightarrow> nat \<Rightarrow> nat \<Rightarrow> (int \<times> int) set" where
  "live_neighbors ctx row col =
     {(dr, dc) \<in> moore_offsets.
        0 \<le> int row + dr \<and> int row + dr < int (rows ctx) \<and>
        0 \<le> int col + dc \<and> int col + dc < int (cols ctx) \<and>
        live (grid ctx ! nat (int row + dr) ! nat (int col + dc))}"

text \<open>The position \<^verbatim>\<open>(nr, nc)\<close> that the loop body computes for an offset.\<close>

definition target :: "nat \<Rightarrow> nat \<Rightarrow> int \<times> int \<Rightarrow> int \<times> int" where
  "target row col off = (int_of_size row + fst off, int_of_size col + snd off)"

definition examined :: "gol_context_t \<Rightarrow> nat \<Rightarrow> nat \<Rightarrow> int \<times> int \<Rightarrow> bool" where
  "examined ctx row col off \<longleftrightarrow>
     off \<noteq> (0, 0) \<and> is_valid_position ctx (fst (target row col off)) (snd (target row col off))"

definition counted :: "gol_context_t \<Rightarrow> nat \<Rightarrow> nat \<Rightarrow> int \<times> int \<Rightarrow> bool" where
  "counted ctx row col off \<longleftrightarrow>
     examined ctx row col off \<and>
     live (grid ctx ! nat (fst (target row col off)) ! nat (snd (target row col off)))"

section \<open>Reference definitions for the interaction handler\<close>

text \<open>
  A grid that \<^verbatim>\<open>allocate_grid\<close> could set up: \<^verbatim>\<open>calloc\<close> fails when the byte size
  \<^verbatim>\<open>rows * sizeof(cell_state_t*)\<close> or \<^verbatim>\<open>cols * sizeof(cell_state_t)\<close> does not fit \<^verbatim>\<open>size_t\<close>.
\<close>

definition allocatable :: "gol_context_t \<Rightarrow> bool" where
  "allocatable ctx \<longleftrightarrow> rows ctx * 8 < 2 ^ 64 \<and> cols ctx * 4 < 2 ^ 64"

definition pixel_to_cell :: "c_int \<Rightarrow> int" where
  "pixel_to_cell p = sint p sdiv CELL_SIZE"

definition toggled :: "cell_state_t \<Rightarrow> cell_state_t" where
  "toggled c = (if c = CELL_ALIVE then CELL_DEAD else CELL_ALIVE)"

section \<open>Reference definitions for the manual pattern\<close>

text \<open>The cell that a character of a pattern row stands for, if any.\<close>

definition cell_of_char :: "char \<Rightarrow> cell_state_t option" where
  "cell_of_char c =
     (if c \<in> set ''1#*X'' then Some CELL_ALIVE
      else if c \<in> set ''0. '' then Some CELL_DEAD
      else None)"

text \<open>The cells of a pattern row on a grid of \<open>ncols\<close> columns.\<close>

definition row_cells :: "nat \<Rightarrow> string \<Rightarrow> cell_state_t list" where
  "row_cells ncols line = take ncols (List.map_filter cell_of_char (c_str line))"

text \<open>
  A line that the parser takes as a pattern row: not a blank line, not a comment line, not a
  configuration line.
\<close>

definition is_pattern_row :: "string \<Rightarrow> bool" where
  "is_pattern_row line \<longleftrightarrow>
     (case line of [] \<Rightarrow> False
      | b0 # _ \<Rightarrow> b0 \<noteq> newline \<and> b0 \<noteq> CHR ''#'' \<and> b0 \<noteq> CHR ''@'')"

definition pattern_rows :: "string list \<Rightarrow> string list" where
  "pattern_rows lines = filter is_pattern_row lines"

text \<open>
  The grid of the specification: row \<open>k\<close> holds the cells of the \<open>k\<close>-th pattern row, padded
  with dead cells; rows without a pattern row are dead.
\<close>

definition expected_grid :: "nat \<Rightarrow> nat \<Rightarrow> string list \<Rightarrow> cell_state_t list list" where
  "expected_grid nrows ncols prows =
     map (\<lambda>k. if k < length prows
              then row_cells ncols (prows ! k) @
                   replicate (ncols - length (row_cells ncols (prows ! k))) CELL_DEAD
              else replicate ncols CELL_DEAD) [0..<nrows]"

text \<open>
  A file as a list of lines that \<^verbatim>\<open>fgets\<close> returns one by one: each line is shorter than the
  buffer and has no newline before its last byte, and every line but the last ends in one.
\<close>

definition line_ok :: "string \<Rightarrow> bool" where
  "line_ok line \<longleftrightarrow> line \<noteq> [] \<and> length line < BUFFER_SIZE \<and> newline \<notin> set (butlast line)"

definition lines_ok :: "string list \<Rightarrow> bool" where
  "lines_ok lines \<longleftrightarrow>
     list_all line_ok lines \<and> list_all (\<lambda>l. last l = newline) (butlast lines)"

definition starts_grid :: "string \<Rightarrow> bool" where
  "starts_grid line \<longleftrightarrow> take 5 line = ''@grid''"

text \<open>The row that writing the cells \<open>ws\<close> from column \<open>col\<close> on leaves.\<close>

definition overwrite :: "nat \<Rightarrow> 'a list \<Rightarrow> 'a list \<Rightarrow> 'a list" where
  "overwrite col ws row = take col row @ ws @ drop (col + length ws) row"

section \<open>Reference definitions for the random cells\<close>

text \<open>The next \<open>n\<close> numbers of the generator, and its state after them.\<close>

fun draws :: "'g libc_rand \<Rightarrow> 'g \<Rightarrow> nat \<Rightarrow> int list" where
  "draws libc g 0 = []"
| "draws libc g (Suc n) = fst (rand libc g) # draws libc (snd (rand libc g)) n"

fun advance :: "'g libc_rand \<Rightarrow> 'g \<Rightarrow> nat \<Rightarrow> 'g" where
  "advance libc g 0 = g"
| "advance libc g (Suc n) = advance libc (snd (rand libc g)) n"

definition cell_of_draw :: "int \<Rightarrow> cell_state_t" where
  "cell_of_draw r = (if odd r then CELL_ALIVE else CELL_DEAD)"

text \<open>The grid as a function of the seed and the dimensions alone.\<close>

definition random_grid :: "'g libc_rand \<Rightarrow> c_uint \<Rightarrow> nat \<Rightarrow> nat \<Rightarrow> cell_state_t list list" where
  "random_grid libc s nrows ncols =
     map (\<lambda>i. map cell_of_draw (draws libc (advance libc (srand libc s) (i * ncols)) ncols))
       [0..<nrows]"

section \<open>Reference definitions for the allocation\<close>

text \<open>A heap whose addresses above \<open>brk\<close> are free.\<close>

definition heap_ok :: "heap \<Rightarrow> bool" where
  "heap_ok h \<longleftrightarrow> (\<forall>a. brk h < a \<longrightarrow> blocks h a = None)"

text \<open>The blocks, and the heap, once the row pointers and the first \<open>i\<close> rows are allocated.\<close>

definition alloc_blocks :: "heap \<Rightarrow> mem_context \<Rightarrow> nat \<Rightarrow> nat \<Rightarrow> block option" where
  "alloc_blocks h ctx i =
     (\<lambda>a. if a = Suc (brk h)
          then Some (RowPointers (map (\<lambda>k. Some (Suc (brk h) + Suc k)) [0..<i] @
                                 replicate (mrows ctx - i) None))
          else if Suc (brk h) < a \<and> a \<le> Suc (brk h) + i
          then Some (Cells (replicate (mcols ctx) CELL_DEAD))
          else blocks h a)"

definition alloc_state :: "heap \<Rightarrow> mem_context \<Rightarrow> nat \<Rightarrow> heap" where
  "alloc_state h ctx i =
     \<lparr>blocks = alloc_blocks h ctx i, brk = Suc (brk h) + i, calls = Suc (calls h) + i\<rparr>"

section \<open>Example inputs\<close>

definition demo_config :: gol_config_t where
  "demo_config = \<lparr>cfg_rows = 3, cfg_cols = 3, steps = 0, seed = 0, config_type = ''manual''\<rparr>"

text \<open>A vertical blinker on a 3 by 3 grid.\<close>

definition blinker :: gol_context_t where
  "blinker = \<lparr>rows = 3, cols = 3,
      grid = [[CELL_DEAD, CELL_ALIVE, CELL_DEAD],
              [CELL_DEAD, CELL_ALIVE, CELL_DEAD],
              [CELL_DEAD, CELL_ALIVE, CELL_DEAD]],
      config = demo_config\<rparr>"

text \<open>
  A single row of \<open>2 ^ 31\<close> live cells (8 GiB of cells): the smallest width that the
  conversion \<^verbatim>\<open>(int)ctx->cols\<close> does not preserve.
\<close>

definition wide_row :: gol_context_t where
  "wide_row = \<lparr>rows = 1, cols = 2 ^ 31, grid = [replicate (2 ^ 31) CELL_ALIVE],
      config = demo_config\<lparr>cfg_rows := 1, cfg_cols := 2 ^ 31\<rparr>\<rparr>"

text \<open>A grid caught between the two passes of a step, with both marks on it.\<close>

definition mid_step :: gol_context_t where
  "mid_step = \<lparr>rows = 2, cols = 2,
      grid = [[CELL_DYING, CELL_BIRTH],
              [CELL_ALIVE, CELL_DEAD]],
      config = demo_config\<lparr>cfg_rows := 2, cfg_cols := 2\<rparr>\<rparr>"

definition five_by_five :: gol_context_t where
  "five_by_five = \<lparr>rows = 5, cols = 5, grid = replicate 5 (replicate 5 CELL_ALIVE),
     config = demo_config\<lparr>cfg_rows := 5, cfg_cols := 5\<rparr>\<rparr>"

definition two_cells :: gol_context_t where
  "two_cells = \<lparr>rows = 2, cols = 1, grid = [[CELL_DEAD], [CELL_DEAD]],
     config = demo_config\<lparr>cfg_rows := 2, cfg_cols := 1\<rparr>\<rparr>"

definition text_line :: "string \<Rightarrow> string" where
  "text_line l = l @ [newline]"

text \<open>The example configuration file that \<^verbatim>\<open>print_usage\<close> shows.\<close>

definition usage_file :: "string list" where
  "usage_file = map text_line [''@nrows 5'', ''@ncols 5'', ''@config manual'', ''@grid'',
      ''00100'', ''00100'', ''00100'', ''00000'', ''00000'']"

text \<open>A glider drawn with the markers \<^verbatim>\<open>#\<close> and \<^verbatim>\<open>.\<close> that \<^verbatim>\<open>print_grid_console\<close> prints.\<close>

definition glider_file :: "string list" where
  "glider_file = map text_line [''@grid'', ''.#.'', ''..#'', ''###'']"

text \<open>A linear congruential generator, the one sketched in the C standard, on 32 bits.\<close>

definition example_libc :: "nat libc_rand" where
  "example_libc = \<lparr>srand = unat,
     rand = (\<lambda>next. let n = (next * 1103515245 + 12345) mod 2 ^ 32
                  in (int ((n div 65536) mod 32768), n))\<rparr>"

definition random_ctx :: "c_uint \<Rightarrow> cell_state_t list list \<Rightarrow> gol_context_t" where
  "random_ctx s g = \<lparr>rows = 2, cols = 2, grid = g,
     config = \<lparr>cfg_rows = 2, cfg_cols = 2, steps = 0, seed = s, config_type = ''random''\<rparr>\<rparr>"

text \<open>A window that is closed at once.\<close>

definition quit_now :: sdl_env where
  "quit_now = \<lparr>polled = (\<lambda>n. [SDL_QUIT]), clock = (\<lambda>n. 0)\<rparr>"

definition start_state :: "nat sim_state" where
  "start_state = \<lparr>running = True, generation = 0, sim_ctx = blinker, libc_state = 0, effects = []\<rparr>"

definition empty_heap :: heap where
  "empty_heap = \<lparr>blocks = (\<lambda>a. None), brk = 0, calls = 0\<rparr>"

definition two_by_two_mem :: mem_context where
  "two_by_two_mem = \<lparr>mrows = 2, mcols = 2, grid_ptr = None\<rparr>"

section \<open>Auxiliary facts\<close>

subsection \<open>Conversions and loops\<close>

lemma int_of_size_upper: "int_of_size n \<le> int n"
proof -
  have "int_of_size n \<le> take_bit 32 (int n)"
    by (simp add: int_of_size_def signed_of_nat signed_take_bit_eq_take_bit_minus)
  also have "\<dots> \<le> int n"
    by (simp add: take_bit_eq_mod zmod_le_nonneg_dividend)
  finally show ?thesis .
qed

lemma int_of_size_le: "0 \<le> r \<Longrightarrow> r < int_of_size n \<Longrightarrow> nat r < n"
  using int_of_size_upper [of n] by linarith

lemma int_of_size_small: "n < 2 ^ 31 \<Longrightarrow> int_of_size n = int n"
  by (simp add: int_of_size_def signed_of_nat signed_take_bit_int_eq_self)

lemma size_of_int_take_bit: "size_of_int q = nat (take_bit 64 q)"
  by (simp add: size_of_int_def unsigned_of_int)

lemma size_of_int_nonneg: "0 \<le> q \<Longrightarrow> q < 2 ^ 64 \<Longrightarrow> size_of_int q = nat q"
  by (simp only: size_of_int_take_bit take_bit_int_eq_self)

lemma size_of_int_neg: "q < 0 \<Longrightarrow> - (2 ^ 64) \<le> q \<Longrightarrow> size_of_int q = nat (2 ^ 64 + q)"
proof -
  assume a: "q < 0" "- (2 ^ 64) \<le> q"
  have "take_bit 64 q = take_bit 64 (q + 2 ^ 64)"
    by (simp add: take_bit_eq_mod)
  also have "\<dots> = q + 2 ^ 64" using a by (intro take_bit_int_eq_self) simp_all
  finally show ?thesis by (simp only: size_of_int_take_bit add.commute)
qed

lemma fold_concat: "fold f (concat xss) s = fold (fold f) xss s"
  by (induction xss arbitrary: s) simp_all

lemma for_loop_fold: "for_loop i n body = fold body [i..<n]"
proof
  fix s
  show "for_loop i n body s = fold body [i..<n] s"
  proof (induction i n body s rule: for_loop.induct)
    case (1 i n body s)
    show ?case
    proof (cases "i < n")
      case True
      with 1 show ?thesis by (subst for_loop.simps) (simp add: upt_conv_Cons)
    next
      case False
      then show ?thesis by (subst for_loop.simps) simp
    qed
  qed
qed

lemma nested_for_loop_fold:
  "for_loop 0 n (\<lambda>i. for_loop 0 m (\<lambda>j. f i j)) s =
   fold (\<lambda>(i, j). f i j) (concat (map (\<lambda>i. map (Pair i) [0..<m]) [0..<n])) s"
  by (simp add: for_loop_fold fold_concat fold_map comp_def)

subsection \<open>Cells of a grid\<close>

lemma set_cell_fields [simp]:
  "rows (set_cell ctx i j v) = rows ctx"
  "cols (set_cell ctx i j v) = cols ctx"
  "config (set_cell ctx i j v) = config ctx"
  by (simp_all add: set_cell_def)

lemma grid_ok_iff:
  "grid_ok ctx \<longleftrightarrow>
     length (grid ctx) = rows ctx \<and> (\<forall>i < rows ctx. length (grid ctx ! i) = cols ctx)"
  by (auto simp: grid_ok_def list_all_length)

lemma at_rest_iff:
  "grid_ok ctx \<Longrightarrow>
   at_rest ctx \<longleftrightarrow>
     (\<forall>i < rows ctx. \<forall>j < cols ctx.
         grid ctx ! i ! j = CELL_DEAD \<or> grid ctx ! i ! j = CELL_ALIVE)"
  by (auto simp: grid_ok_iff at_rest_def list_all_length)

lemma grid_ok_set_cell: "grid_ok ctx \<Longrightarrow> grid_ok (set_cell ctx i j v)"
proof -
  assume ok: "grid_ok ctx"
  have "length ((grid ctx)[i := (grid ctx ! i)[j := v]] ! k) = cols ctx" if "k < rows ctx" for k
    using ok that by (cases "k = i") (simp_all add: grid_ok_iff)
  with ok show ?thesis by (simp add: grid_ok_iff set_cell_def)
qed

lemma nth_set_cell:
  "grid_ok ctx \<Longrightarrow> i < rows ctx \<Longrightarrow> j < cols ctx \<Longrightarrow> i' < rows ctx \<Longrightarrow>
   grid (set_cell ctx i j v) ! i' ! j' = (if i' = i \<and> j' = j then v else grid ctx ! i' ! j')"
  by (auto simp: grid_ok_iff set_cell_def nth_list_update)

lemma set_cell_frame: "set_cell ctx i j v = ctx\<lparr>grid := grid (set_cell ctx i j v)\<rparr>"
  by (simp add: set_cell_def)

lemma valid_position_in_grid:
  "is_valid_position ctx nr nc \<Longrightarrow> nat nr < rows ctx \<and> nat nc < cols ctx"
  by (simp add: is_valid_position_def int_of_size_le)

lemma visit_neighbor_cong:
  assumes "rows ctx' = rows ctx" "cols ctx' = cols ctx"
    and "\<forall>i < rows ctx. \<forall>j < cols ctx. live (grid ctx' ! i ! j) = live (grid ctx ! i ! j)"
  shows "visit_neighbor ctx' r c dr dc acc = visit_neighbor ctx r c dr dc acc"
proof -
  let ?nr = "int_of_size r + dr" and ?nc = "int_of_size c + dc"
  have v: "is_valid_position ctx' ?nr ?nc = is_valid_position ctx ?nr ?nc"
    using assms by (simp add: is_valid_position_def)
  show ?thesis
  proof (cases "is_valid_position ctx ?nr ?nc")
    case True
    then have "live (grid ctx' ! nat ?nr ! nat ?nc) = live (grid ctx ! nat ?nr ! nat ?nc)"
      using assms(3) valid_position_in_grid by blast
    with True v show ?thesis by (simp add: visit_neighbor_def Let_def live_def)
  next
    case False
    with v show ?thesis by (simp add: visit_neighbor_def Let_def)
  qed
qed

lemma count_neighbors_cong:
  assumes "rows ctx' = rows ctx" "cols ctx' = cols ctx"
    and "\<forall>i < rows ctx. \<forall>j < cols ctx. live (grid ctx' ! i ! j) = live (grid ctx ! i ! j)"
  shows "count_neighbors ctx' r c = count_neighbors ctx r c"
  by (simp add: count_neighbors_def count_neighbors_reads_def visit_neighbor_cong [OF assms])

subsection \<open>The two passes\<close>

lemma mark_cell_eq:
  "mark_cell i j ctx =
     (if marked (grid ctx ! i ! j) (count_neighbors ctx i j) = grid ctx ! i ! j then ctx
      else set_cell ctx i j (marked (grid ctx ! i ! j) (count_neighbors ctx i j)))"
  by (simp add: mark_cell_def marked_def Let_def MIN_NEIGHBORS_TO_SURVIVE_def
      MAX_NEIGHBORS_TO_SURVIVE_def NEIGHBORS_TO_BIRTH_def)

lemma apply_cell_eq:
  "apply_cell i j ctx =
     (if committed (grid ctx ! i ! j) = grid ctx ! i ! j then ctx
      else set_cell ctx i j (committed (grid ctx ! i ! j)))"
  by (simp add: apply_cell_def committed_def)

lemma marked_idem: "marked (marked c n) n = marked c n"
  by (simp add: marked_def)

lemma committed_idem: "committed (committed c) = committed c"
  by (simp add: committed_def)

lemma live_marked: "c = CELL_DEAD \<or> c = CELL_ALIVE \<Longrightarrow> live (marked c n) = live c"
  by (auto simp: marked_def live_def)

lemma committed_marked:
  "c = CELL_DEAD \<or> c = CELL_ALIVE \<Longrightarrow> committed (marked c n) = next_state c n"
  by (auto simp: marked_def committed_def next_state_def)

lemma pass_result_start: "grid_ok ctx0 \<Longrightarrow> pass_result ctx0 {} new ctx0"
  by (simp add: pass_result_def)

lemma pass_result_fields:
  "pass_result ctx0 visited new ctx \<Longrightarrow> rows ctx = rows ctx0 \<and> cols ctx = cols ctx0"
  by (metis gol_context_t.select_convs(1,2) gol_context_t.surjective gol_context_t.update_convs(3) pass_result_def)

lemma pass_result_set_cell:
  assumes "pass_result ctx0 visited new ctx" "a < rows ctx0" "b < cols ctx0"
  shows "pass_result ctx0 (insert (a, b) visited) new (set_cell ctx a b (new a b))"
proof -
  from assms(1) have f: "rows ctx = rows ctx0" "cols ctx = cols ctx0"
    using pass_result_fields by blast+
  from assms(1) have ok: "grid_ok ctx" and fr: "ctx = ctx0\<lparr>grid := grid ctx\<rparr>"
    by (simp_all add: pass_result_def)
  have "set_cell ctx a b (new a b) = ctx0\<lparr>grid := grid (set_cell ctx a b (new a b))\<rparr>"
    by (subst fr) (simp add: set_cell_def)
  moreover have "grid_ok (set_cell ctx a b (new a b))"
    using ok by (rule grid_ok_set_cell)
  moreover have "grid (set_cell ctx a b (new a b)) ! i ! j =
      (if (i, j) \<in> insert (a, b) visited then new i j else grid ctx0 ! i ! j)"
    if "i < rows ctx0" "j < cols ctx0" for i j
    using that assms f ok by (simp add: nth_set_cell pass_result_def)
  ultimately show ?thesis by (simp add: pass_result_def)
qed

lemma pass_result_skip:
  assumes "pass_result ctx0 visited new ctx" "a < rows ctx0" "b < cols ctx0"
    and "grid ctx ! a ! b = new a b"
  shows "pass_result ctx0 (insert (a, b) visited) new ctx"
  using assms by (auto simp: pass_result_def)

lemma mark_in_order_result:
  assumes "grid_ok ctx" "at_rest ctx" "\<forall>(i, j) \<in> set ps. i < rows ctx \<and> j < cols ctx"
  shows "pass_result ctx (set ps)
           (\<lambda>i j. marked (grid ctx ! i ! j) (count_neighbors ctx i j)) (mark_in_order ps ctx)"
  using assms(3)
proof (induction ps rule: rev_induct)
  case Nil
  then show ?case using assms(1) by (simp add: mark_in_order_def pass_result_start)
next
  case (snoc p ps)
  obtain a b where p: "p = (a, b)" by (cases p)
  let ?new = "\<lambda>i j. marked (grid ctx ! i ! j) (count_neighbors ctx i j)"
  let ?c = "mark_in_order ps ctx"
  from snoc p have ab: "a < rows ctx" "b < cols ctx" by auto
  from snoc have IH: "pass_result ctx (set ps) ?new ?c" by simp
  then have f: "rows ?c = rows ctx" "cols ?c = cols ctx"
    using pass_result_fields by blast+
  have rest: "grid ctx ! i ! j = CELL_DEAD \<or> grid ctx ! i ! j = CELL_ALIVE"
    if "i < rows ctx" "j < cols ctx" for i j
    using assms(1,2) that by (simp add: at_rest_iff)
  have cell: "grid ?c ! i ! j = (if (i, j) \<in> set ps then ?new i j else grid ctx ! i ! j)"
    if "i < rows ctx" "j < cols ctx" for i j
    using IH that by (simp add: pass_result_def)
  have "live (grid ?c ! i ! j) = live (grid ctx ! i ! j)" if "i < rows ctx" "j < cols ctx" for i j
    using cell [OF that] rest [OF that] by (simp add: live_marked)
  then have cnt: "count_neighbors ?c a b = count_neighbors ctx a b"
    using f by (intro count_neighbors_cong) simp_all
  have m: "marked (grid ?c ! a ! b) (count_neighbors ctx a b) = ?new a b"
    using cell [OF ab] by (simp add: marked_idem)
  have "pass_result ctx (insert (a, b) (set ps)) ?new (mark_cell a b ?c)"
  proof (cases "marked (grid ?c ! a ! b) (count_neighbors ?c a b) = grid ?c ! a ! b")
    case True
    then have "mark_cell a b ?c = ?c" by (simp add: mark_cell_eq)
    moreover have "grid ?c ! a ! b = ?new a b" using True m cnt by simp
    ultimately show ?thesis using pass_result_skip [OF IH ab] by simp
  next
    case False
    then have "mark_cell a b ?c = set_cell ?c a b (?new a b)"
      using m cnt by (simp add: mark_cell_eq)
    then show ?thesis using pass_result_set_cell [OF IH ab] by simp
  qed
  then show ?case by (simp add: mark_in_order_def p)
qed

lemma apply_in_order_result:
  assumes "grid_ok ctx" "\<forall>(i, j) \<in> set ps. i < rows ctx \<and> j < cols ctx"
  shows "pass_result ctx (set ps) (\<lambda>i j. committed (grid ctx ! i ! j)) (apply_in_order ps ctx)"
  using assms(2)
proof (induction ps rule: rev_induct)
  case Nil
  then show ?case using assms(1) by (simp add: apply_in_order_def pass_result_start)
next
  case (snoc p ps)
  obtain a b where p: "p = (a, b)" by (cases p)
  let ?new = "\<lambda>i j. committed (grid ctx ! i ! j)"
  let ?c = "apply_in_order ps ctx"
  from snoc p have ab: "a < rows ctx" "b < cols ctx" by auto
  from snoc have IH: "pass_result ctx (set ps) ?new ?c" by simp
  have "grid ?c ! a ! b = (if (a, b) \<in> set ps then ?new a b else grid ctx ! a ! b)"
    using IH ab by (simp add: pass_result_def)
  then have m: "committed (grid ?c ! a ! b) = ?new a b"
    by (simp add: committed_idem)
  have "pass_result ctx (insert (a, b) (set ps)) ?new (apply_cell a b ?c)"
  proof (cases "committed (grid ?c ! a ! b) = grid ?c ! a ! b")
    case True
    then have "apply_cell a b ?c = ?c" by (simp add: apply_cell_eq)
    moreover have "grid ?c ! a ! b = ?new a b" using True m by simp
    ultimately show ?thesis using pass_result_skip [OF IH ab] by simp
  next
    case False
    then have "apply_cell a b ?c = set_cell ?c a b (?new a b)"
      using m by (simp add: apply_cell_eq)
    then show ?thesis using pass_result_set_cell [OF IH ab] by simp
  qed
  then show ?case by (simp add: apply_in_order_def p)
qed

lemma set_row_major: "set (row_major ctx) = {(i, j). i < rows ctx \<and> j < cols ctx}"
  by (auto simp: row_major_def)

lemma mark_phase_row_major: "mark_phase ctx = mark_in_order (row_major ctx) ctx"
  by (simp add: mark_phase_def mark_in_order_def row_major_def nested_for_loop_fold)

lemma apply_phase_row_major: "apply_phase ctx = apply_in_order (row_major ctx) ctx"
  by (simp add: apply_phase_def apply_in_order_def row_major_def nested_for_loop_fold)

lemma grid_eq_mapI:
  assumes "grid_ok ctx" "\<forall>i < rows ctx. \<forall>j < cols ctx. grid ctx ! i ! j = f i j"
  shows "grid ctx = map (\<lambda>i. map (f i) [0..<cols ctx]) [0..<rows ctx]"
proof (rule nth_equalityI)
  show "length (grid ctx) = length (map (\<lambda>i. map (f i) [0..<cols ctx]) [0..<rows ctx])"
    using assms(1) by (simp add: grid_ok_iff)
next
  fix i assume "i < length (grid ctx)"
  then have i: "i < rows ctx" using assms(1) by (simp add: grid_ok_iff)
  then have "grid ctx ! i = map (f i) [0..<cols ctx]"
    using assms by (intro nth_equalityI) (simp_all add: grid_ok_iff)
  with i show "grid ctx ! i = map (\<lambda>i. map (f i) [0..<cols ctx]) [0..<rows ctx] ! i"
    by simp
qed

lemma marked_then_applied:
  assumes "grid_ok ctx" "at_rest ctx" "set ps = set (row_major ctx)"
  shows "apply_phase (mark_in_order ps ctx) = reference_step ctx"
proof -
  let ?new = "\<lambda>i j. marked (grid ctx ! i ! j) (count_neighbors ctx i j)"
  let ?m = "mark_in_order ps ctx"
  let ?a = "apply_phase ?m"
  have inb: "\<forall>(i, j) \<in> set ps. i < rows ctx \<and> j < cols ctx"
    using assms(3) by (simp add: set_row_major)
  have M: "pass_result ctx (set ps) ?new ?m"
    using assms(1,2) inb by (rule mark_in_order_result)
  then have fm: "rows ?m = rows ctx" "cols ?m = cols ctx"
    using pass_result_fields by blast+
  from M have okm: "grid_ok ?m" and frm: "?m = ctx\<lparr>grid := grid ?m\<rparr>"
    by (simp_all add: pass_result_def)
  have A: "pass_result ?m (set (row_major ?m)) (\<lambda>i j. committed (grid ?m ! i ! j)) ?a"
    unfolding apply_phase_row_major
    using okm by (rule apply_in_order_result) (simp add: set_row_major)
  then have fa: "rows ?a = rows ctx" "cols ?a = cols ctx"
    using pass_result_fields fm by metis+
  from A have oka: "grid_ok ?a" and fra: "?a = ?m\<lparr>grid := grid ?a\<rparr>"
    by (simp_all add: pass_result_def)
  have rest: "grid ctx ! i ! j = CELL_DEAD \<or> grid ctx ! i ! j = CELL_ALIVE"
    if "i < rows ctx" "j < cols ctx" for i j
    using assms(1,2) that by (simp add: at_rest_iff)
  have "grid ?a ! i ! j = next_state (grid ctx ! i ! j) (count_neighbors ctx i j)"
    if "i < rows ctx" "j < cols ctx" for i j
  proof -
    have "grid ?a ! i ! j = committed (grid ?m ! i ! j)"
      using A that fm by (simp add: pass_result_def set_row_major)
    also have "grid ?m ! i ! j = ?new i j"
      using M that assms(3) by (simp add: pass_result_def set_row_major)
    finally show ?thesis using rest [OF that] by (simp add: committed_marked)
  qed
  then have "grid ?a = map (\<lambda>i. map (\<lambda>j. next_state (grid ctx ! i ! j) (count_neighbors ctx i j))
                              [0..<cols ctx]) [0..<rows ctx]"
    using grid_eq_mapI [OF oka] fa by simp
  moreover have "?a = ctx\<lparr>grid := grid ?a\<rparr>"
    by (subst fra, subst frm) simp
  ultimately show ?thesis by (simp add: reference_step_def)
qed

lemma simulate_step_reference:
  "grid_ok ctx \<Longrightarrow> at_rest ctx \<Longrightarrow> simulate_step ctx = reference_step ctx"
  by (simp add: simulate_step_def mark_phase_row_major marked_then_applied)

lemma reference_step_cell:
  "i < rows ctx \<Longrightarrow> j < cols ctx \<Longrightarrow>
   grid (reference_step ctx) ! i ! j = next_state (grid ctx ! i ! j) (count_neighbors ctx i j)"
  by (simp add: reference_step_def)

subsection \<open>Click coordinates\<close>

lemma pixel_to_cell_range: "- (2 ^ 28) \<le> pixel_to_cell p \<and> pixel_to_cell p < 2 ^ 28"
proof -
  have "- (2 ^ 31) \<le> sint p" "sint p < 2 ^ 31"
    using sint_ge [of p] sint_lt [of p] by simp_all
  then show ?thesis
    by (auto simp: pixel_to_cell_def CELL_SIZE_def signed_divide_int_def sgn_if)
qed

lemma click_index:
  assumes "n * 4 < (2::nat) ^ 64"
  shows "size_of_int (pixel_to_cell p) < n \<longleftrightarrow> 0 \<le> pixel_to_cell p \<and> pixel_to_cell p < int n"
    and "0 \<le> pixel_to_cell p \<Longrightarrow> size_of_int (pixel_to_cell p) = nat (pixel_to_cell p)"
proof -
  let ?q = "pixel_to_cell p"
  have r: "- (2 ^ 28) \<le> ?q" "?q < 2 ^ 28" using pixel_to_cell_range by simp_all
  show pos: "size_of_int ?q = nat ?q" if "0 \<le> ?q"
    using that r by (intro size_of_int_nonneg) simp_all
  show "size_of_int ?q < n \<longleftrightarrow> 0 \<le> ?q \<and> ?q < int n"
  proof (cases "0 \<le> ?q")
    case True
    then show ?thesis using pos by auto
  next
    case False
    then have "size_of_int ?q = nat (2 ^ 64 + ?q)"
      using r by (intro size_of_int_neg) simp_all
    then show ?thesis using False r assms by simp
  qed
qed

lemma handle_mouse_click_eq:
  assumes "allocatable ctx"
  shows "handle_mouse_click ctx x y =
     (if 0 \<le> pixel_to_cell y \<and> pixel_to_cell y < int (rows ctx) \<and>
         0 \<le> pixel_to_cell x \<and> pixel_to_cell x < int (cols ctx)
      then set_cell ctx (nat (pixel_to_cell y)) (nat (pixel_to_cell x))
             (toggled (grid ctx ! nat (pixel_to_cell y) ! nat (pixel_to_cell x)))
      else ctx)"
proof -
  have r: "rows ctx * 4 < 2 ^ 64" and c: "cols ctx * 4 < 2 ^ 64"
    using assms by (simp_all add: allocatable_def)
  show ?thesis
    unfolding handle_mouse_click_def Let_def pixel_to_cell_def [symmetric] toggled_def [symmetric]
    using click_index [OF r, of y] click_index [OF c, of x] by simp
qed

subsection \<open>The neighbour count as a filter\<close>

lemma visit_neighbor_eq:
  "visit_neighbor ctx r c dr dc acc =
     (fst acc + (if counted ctx r c (dr, dc) then 1 else 0),
      snd acc @ (if examined ctx r c (dr, dc) then [target r c (dr, dc)] else []))"
  unfolding visit_neighbor_def counted_def examined_def target_def live_def Let_def
  by (cases acc) auto

lemma fold_visit_cols:
  "fold (visit_neighbor ctx r c dr) cs acc =
     (fst acc + int (length (filter (counted ctx r c) (map (Pair dr) cs))),
      snd acc @ map (target r c) (filter (examined ctx r c) (map (Pair dr) cs)))"
  by (induction cs arbitrary: acc) (simp_all add: visit_neighbor_eq)

lemma fold_visit_rows:
  "fold (\<lambda>dr. fold (visit_neighbor ctx r c dr) cs) rs acc =
     (fst acc + int (length (filter (counted ctx r c) (List.product rs cs))),
      snd acc @ map (target r c) (filter (examined ctx r c) (List.product rs cs)))"
  by (induction rs arbitrary: acc) (simp_all add: fold_visit_cols)

lemma count_neighbors_reads_eq:
  "count_neighbors_reads ctx r c =
     (int (length (filter (counted ctx r c) (List.product [-1, 0, 1] [-1, 0, 1]))),
      map (target r c) (filter (examined ctx r c) (List.product [-1, 0, 1] [-1, 0, 1])))"
  unfolding count_neighbors_reads_def
  by (simp only: fold_visit_rows fst_conv snd_conv add_0 append_Nil)

lemma int_of_size_cong: "\<exists>k. int n - int_of_size n = 4294967296 * k"
proof -
  have "int_of_size n = take_bit 32 (int n) - 2 ^ 32 * of_bool (bit (int n) 31)"
    by (simp add: int_of_size_def signed_of_nat signed_take_bit_eq_take_bit_minus)
  moreover have "int n = 2 ^ 32 * (int n div 2 ^ 32) + take_bit 32 (int n)"
    by (simp add: take_bit_eq_mod)
  ultimately have "int n - int_of_size n = 2 ^ 32 * (int n div 2 ^ 32 + of_bool (bit (int n) 31))"
    by (simp add: algebra_simps)
  then have "int n - int_of_size n = 4294967296 * (int n div 2 ^ 32 + of_bool (bit (int n) 31))"
    by simp
  then show ?thesis by (rule exI)
qed

lemma int_of_size_offset: "d = 1 \<or> d = -1 \<Longrightarrow> int_of_size n + d \<noteq> int n"
proof
  assume d: "d = 1 \<or> d = -1" and e: "int_of_size n + d = int n"
  obtain k where k: "int n - int_of_size n = 4294967296 * k" using int_of_size_cong by blast
  from e k have dk: "d = 4294967296 * k" by linarith
  consider "k = 0" | "1 \<le> k" | "k \<le> -1" by linarith
  then show False
  proof cases
    case 1
    with d dk show False by simp
  next
    case 2
    with d dk show False by linarith
  next
    case 3
    with d dk show False by linarith
  qed
qed

lemma examined_not_self:
  assumes "off \<in> set (List.product [-1, 0, 1] [-1, 0, 1])" "examined ctx r c off"
  shows "target r c off \<noteq> (int r, int c)"
proof -
  obtain dr dc where o: "off = (dr, dc)" by (cases off)
  from assms o have "dr = 1 \<or> dr = -1 \<or> dc = 1 \<or> dc = -1"
    by (auto simp: examined_def)
  then show ?thesis
    using int_of_size_offset [of dr r] int_of_size_offset [of dc c]
    by (auto simp: target_def o)
qed

lemma examined_in_grid:
  assumes "examined ctx r c off"
  shows "0 \<le> fst (target r c off) \<and> fst (target r c off) < int (rows ctx) \<and>
         0 \<le> snd (target r c off) \<and> snd (target r c off) < int (cols ctx)"
  using assms valid_position_in_grid [of ctx "fst (target r c off)" "snd (target r c off)"]
  by (auto simp: examined_def is_valid_position_def)

lemma live_neighbors_list:
  assumes "rows ctx < 2 ^ 31" "cols ctx < 2 ^ 31" "r < rows ctx" "c < cols ctx"
  shows "live_neighbors ctx r c = set (filter (counted ctx r c) (List.product [-1, 0, 1] [-1, 0, 1]))"
proof -
  have "int_of_size r = int r" "int_of_size c = int c"
    "int_of_size (rows ctx) = int (rows ctx)" "int_of_size (cols ctx) = int (cols ctx)"
    using assms by (simp_all add: int_of_size_small)
  then have "counted ctx r c (dr, dc) \<longleftrightarrow>
      (dr, dc) \<noteq> (0, 0) \<and> 0 \<le> int r + dr \<and> int r + dr < int (rows ctx) \<and>
      0 \<le> int c + dc \<and> int c + dc < int (cols ctx) \<and>
      live (grid ctx ! nat (int r + dr) ! nat (int c + dc))" for dr dc
    by (simp add: counted_def examined_def target_def is_valid_position_def)
  moreover have "set (List.product [-1, 0, 1] [-1, 0, 1 :: int]) = {-1, 0, 1 :: int} \<times> {-1, 0, 1}"
    by (simp only: set_product set_simps list.set)
  ultimately show ?thesis
    unfolding live_neighbors_def moore_offsets_def set_filter by blast
qed

lemma count_neighbors_card:
  assumes "rows ctx < 2 ^ 31" "cols ctx < 2 ^ 31" "r < rows ctx" "c < cols ctx"
  shows "count_neighbors ctx r c = int (card (live_neighbors ctx r c))"
proof -
  have "distinct (List.product [-1, 0, 1 :: int] [-1, 0, 1 :: int])"
    by (intro distinct_product) simp_all
  then have "card (set (filter (counted ctx r c) (List.product [-1, 0, 1] [-1, 0, 1]))) =
      length (filter (counted ctx r c) (List.product [-1, 0, 1] [-1, 0, 1]))"
    by (intro distinct_card distinct_filter)
  then show ?thesis
    by (simp only: live_neighbors_list [OF assms] count_neighbors_def count_neighbors_reads_eq fst_conv)
qed

lemma reads_safe:
  assumes "p \<in> set (snd (count_neighbors_reads ctx r c))"
  shows "0 \<le> fst p \<and> fst p < int (rows ctx) \<and> 0 \<le> snd p \<and> snd p < int (cols ctx) \<and>
         p \<noteq> (int r, int c)"
proof -
  from assms obtain off where o: "off \<in> set (List.product [-1, 0, 1] [-1, 0, 1])"
      "examined ctx r c off" "p = target r c off"
    by (auto simp only: count_neighbors_reads_eq snd_conv set_map set_filter)
  then show ?thesis using examined_in_grid [OF o(2)] examined_not_self [OF o(1,2)] by simp
qed

subsection \<open>The step within the range of int\<close>

text \<open>
  On a grid at rest every cell gets the next state of the rule for the number that
  \<^verbatim>\<open>count_neighbors\<close> returns; where \<^verbatim>\<open>rows\<close> and \<^verbatim>\<open>cols\<close> fit \<^verbatim>\<open>int\<close>, that number is the
  number of live cells of the Moore neighbourhood.
\<close>

lemma simulate_step_cell:
  assumes "grid_ok ctx" "at_rest ctx" "i < rows ctx" "j < cols ctx"
  shows "grid (simulate_step ctx) ! i ! j =
     next_state (grid ctx ! i ! j) (count_neighbors ctx i j)"
  using assms by (simp add: simulate_step_reference reference_step_cell)

lemma simulate_step_moore:
  assumes "grid_ok ctx" "at_rest ctx" "rows ctx < 2 ^ 31" "cols ctx < 2 ^ 31"
    and "i < rows ctx" "j < cols ctx"
  shows "grid (simulate_step ctx) ! i ! j =
     next_state (grid ctx ! i ! j) (int (card (live_neighbors ctx i j)))"
  using assms by (simp add: simulate_step_cell count_neighbors_card)

subsection \<open>Reading lines\<close>

lemma read_line_terminated:
  "newline \<notin> set body \<Longrightarrow> length body < room \<Longrightarrow>
   read_line room (body @ newline # rest) = (body @ [newline], rest)"
  by (induction body arbitrary: room) auto

lemma read_line_unterminated:
  "newline \<notin> set l \<Longrightarrow> length l \<le> room \<Longrightarrow> read_line room l = (l, [])"
  by (induction l arbitrary: room) auto

lemma read_line_line_ok:
  assumes "line_ok l" "last l = newline \<or> rest = []"
  shows "read_line (BUFFER_SIZE - 1) (l @ rest) = (l, rest)"
proof -
  from assms(1) obtain b x where l: "l = b @ [x]"
    by (cases l rule: rev_cases) (simp_all add: line_ok_def)
  from assms(1) l have len: "length b < BUFFER_SIZE - 1" and nl: "newline \<notin> set b"
    by (auto simp: line_ok_def)
  show ?thesis
  proof (cases "x = newline")
    case True
    then show ?thesis using read_line_terminated [OF nl len, of rest] l by simp
  next
    case False
    with assms(2) l have "rest = []" by simp
    moreover have "newline \<notin> set l" using nl False l by simp
    moreover have "length l \<le> BUFFER_SIZE - 1" using len l by simp
    ultimately show ?thesis by (simp add: read_line_unterminated)
  qed
qed

lemma fgets_all_Nil: "fgets_all BUFFER_SIZE [] = []"
  by (subst fgets_all.simps) simp

lemma fgets_all_line:
  assumes "line_ok l" "last l = newline \<or> rest = []"
  shows "fgets_all BUFFER_SIZE (l @ rest) = l # fgets_all BUFFER_SIZE rest"
proof -
  from assms(1) have "l \<noteq> []" by (simp add: line_ok_def)
  moreover have "\<not> BUFFER_SIZE < 2" by (simp add: BUFFER_SIZE_def)
  ultimately show ?thesis
    using read_line_line_ok [OF assms] by (subst fgets_all.simps) simp
qed

lemma fgets_all_lines: "lines_ok ls \<Longrightarrow> fgets_all BUFFER_SIZE (concat ls) = ls"
proof (induction ls)
  case Nil
  then show ?case by (simp add: fgets_all_Nil)
next
  case (Cons l ls)
  then have l: "line_ok l" and t: "last l = newline \<or> concat ls = []"
    by (auto simp: lines_ok_def split: if_splits)
  have "lines_ok ls" using Cons.prems by (auto simp: lines_ok_def split: if_splits)
  with Cons.IH fgets_all_line [OF l t] show ?case by simp
qed

subsection \<open>Pattern rows\<close>

lemma map_filter_Cons_Some: "f x = Some y \<Longrightarrow> List.map_filter f (x # xs) = y # List.map_filter f xs"
  by (simp add: List.map_filter_def)

lemma map_filter_Cons_None: "f x = None \<Longrightarrow> List.map_filter f (x # xs) = List.map_filter f xs"
  by (simp add: List.map_filter_def)

lemma cell_of_char_cases:
  "is_alive_char c \<Longrightarrow> cell_of_char c = Some CELL_ALIVE"
  "\<not> is_alive_char c \<Longrightarrow> is_dead_char c \<Longrightarrow> cell_of_char c = Some CELL_DEAD"
  "\<not> is_alive_char c \<Longrightarrow> \<not> is_dead_char c \<Longrightarrow> cell_of_char c = None"
  by (auto simp: is_alive_char_def is_dead_char_def cell_of_char_def)

lemma overwrite_Nil: "overwrite col [] row = row"
  by (simp add: overwrite_def)

lemma overwrite_Cons:
  "col < length row \<Longrightarrow> overwrite (Suc col) ws (row[col := v]) = overwrite col (v # ws) row"
  by (simp add: overwrite_def take_Suc_conv_app_nth drop_update_cancel)

lemma length_overwrite: "col + length ws \<le> length row \<Longrightarrow> length (overwrite col ws row) = length row"
  by (simp add: overwrite_def)

lemma parse_row_eq:
  assumes "grid_ok ctx" "r < rows ctx" "col \<le> cols ctx"
  shows "parse_row cs r col ctx =
     ctx\<lparr>grid := (grid ctx)[r := overwrite col
        (take (cols ctx - col) (List.map_filter cell_of_char cs)) (grid ctx ! r)]\<rparr>"
  using assms
proof (induction cs arbitrary: col ctx)
  case Nil
  then show ?case by (simp add: List.map_filter_def overwrite_Nil)
next
  case (Cons c cs)
  show ?case
  proof (cases "col < cols ctx")
    case False
    with Cons.prems have "cols ctx - col = 0" by simp
    with False show ?thesis by (simp add: overwrite_Nil)
  next
    case True
    have len: "length (grid ctx) = rows ctx" "length (grid ctx ! r) = cols ctx"
      using Cons.prems by (simp_all add: grid_ok_iff)
    have step: "parse_row cs r (Suc col) (set_cell ctx r col v) =
        ctx\<lparr>grid := (grid ctx)[r := overwrite col
          (v # take (cols ctx - Suc col) (List.map_filter cell_of_char cs)) (grid ctx ! r)]\<rparr>" for v
    proof -
      have "parse_row cs r (Suc col) (set_cell ctx r col v) =
          (set_cell ctx r col v)\<lparr>grid := (grid (set_cell ctx r col v))[r := overwrite (Suc col)
            (take (cols (set_cell ctx r col v) - Suc col) (List.map_filter cell_of_char cs))
            (grid (set_cell ctx r col v) ! r)]\<rparr>"
        using Cons.prems True by (intro Cons.IH grid_ok_set_cell) simp_all
      also have "\<dots> = ctx\<lparr>grid := (grid ctx)[r := overwrite (Suc col)
            (take (cols ctx - Suc col) (List.map_filter cell_of_char cs))
            ((grid ctx ! r)[col := v])]\<rparr>"
        using Cons.prems(2) len by (simp add: set_cell_def)
      finally show ?thesis using True len by (simp add: overwrite_Cons)
    qed
    have tk: "take (cols ctx - col) (v # xs) = v # take (cols ctx - Suc col) xs" for v and xs :: "cell_state_t list"
    proof -
      from True have "cols ctx - col = Suc (cols ctx - Suc col)" by simp
      then show ?thesis by simp
    qed
    consider "is_alive_char c" | "\<not> is_alive_char c" "is_dead_char c"
      | "\<not> is_alive_char c" "\<not> is_dead_char c" by blast
    then show ?thesis
    proof cases
      case 1
      then have "List.map_filter cell_of_char (c # cs) = CELL_ALIVE # List.map_filter cell_of_char cs"
        by (simp add: map_filter_Cons_Some cell_of_char_cases)
      with 1 show ?thesis
        using True step [of CELL_ALIVE] by (simp add: tk)
    next
      case 2
      then have "List.map_filter cell_of_char (c # cs) = CELL_DEAD # List.map_filter cell_of_char cs"
        by (simp add: map_filter_Cons_Some cell_of_char_cases)
      with 2 show ?thesis
        using True step [of CELL_DEAD] by (simp add: tk)
    next
      case 3
      then have "List.map_filter cell_of_char (c # cs) = List.map_filter cell_of_char cs"
        by (simp add: map_filter_Cons_None cell_of_char_cases)
      with 3 show ?thesis
        using True Cons.IH [OF Cons.prems] by simp
    qed
  qed
qed

lemma parse_row_pattern:
  assumes "grid_ok ctx" "r < rows ctx"
  shows "parse_row (c_str l) r 0 ctx =
     ctx\<lparr>grid := (grid ctx)[r := overwrite 0 (row_cells (cols ctx) l) (grid ctx ! r)]\<rparr>"
  using parse_row_eq [OF assms, of 0 "c_str l"] by (simp add: row_cells_def)

lemma grid_ok_parse_row:
  assumes "grid_ok ctx" "r < rows ctx"
  shows "grid_ok (parse_row (c_str l) r 0 ctx)"
proof -
  have "length (row_cells (cols ctx) l) \<le> cols ctx" by (simp add: row_cells_def)
  then have "length (overwrite 0 (row_cells (cols ctx) l) (grid ctx ! r)) = cols ctx"
    using assms by (simp add: length_overwrite grid_ok_iff)
  then show ?thesis
    using assms by (simp add: parse_row_pattern grid_ok_iff nth_list_update)
qed

lemma starts_grid_at: "starts_grid l \<Longrightarrow> \<exists>t. l = CHR ''@'' # t"
  by (cases l) (simp_all add: starts_grid_def)

lemma parse_line_marker:
  "starts_grid g \<Longrightarrow> parse_line g st = st\<lparr>in_grid_section := True, current_row := 0\<rparr>"
  using starts_grid_at [of g]
  by (auto simp: parse_line_def starts_grid_def newline_def)

lemma parse_line_at:
  "\<not> starts_grid (CHR ''@'' # t) \<Longrightarrow> parse_line (CHR ''@'' # t) st = st"
  by (simp add: parse_line_def starts_grid_def newline_def)

lemma parse_line_outside:
  "\<not> in_grid_section st \<Longrightarrow> \<not> starts_grid l \<Longrightarrow> parse_line l st = st"
  by (simp add: parse_line_def starts_grid_def split: list.splits)

lemma parse_line_skip:
  "\<not> is_pattern_row l \<Longrightarrow> \<not> starts_grid l \<Longrightarrow> parse_line l st = st"
  by (auto simp: parse_line_def starts_grid_def is_pattern_row_def split: list.splits)

lemma pattern_row_not_marker: "is_pattern_row l \<Longrightarrow> \<not> starts_grid l"
  using starts_grid_at [of l] by (auto simp: is_pattern_row_def)

lemma parse_line_pattern:
  assumes "is_pattern_row l" "in_grid_section st"
  shows "parse_line l st =
     (if current_row st < rows (pctx st)
      then st\<lparr>pctx := parse_row (c_str l) (current_row st) 0 (pctx st),
              current_row := current_row st + 1\<rparr>
      else st)"
  using assms pattern_row_not_marker [OF assms(1)]
  by (auto simp: parse_line_def starts_grid_def is_pattern_row_def split: list.splits)

lemma fold_before_marker:
  "\<forall>l \<in> set pre. \<not> starts_grid l \<Longrightarrow> \<not> in_grid_section st \<Longrightarrow> fold parse_line pre st = st"
  by (induction pre) (simp_all add: parse_line_outside)

lemma fold_pattern_rows:
  "\<forall>l \<in> set pat. \<not> starts_grid l \<Longrightarrow>
   fold parse_line pat st = fold parse_line (pattern_rows pat) st"
  by (induction pat arbitrary: st) (simp_all add: pattern_rows_def parse_line_skip)

lemma fold_rows:
  assumes "\<forall>l \<in> set prs. is_pattern_row l" "in_grid_section st" "grid_ok (pctx st)"
    and "current_row st \<le> rows (pctx st)"
  shows "in_grid_section (fold parse_line prs st) \<and>
     current_row (fold parse_line prs st) = min (current_row st + length prs) (rows (pctx st)) \<and>
     pctx (fold parse_line prs st) = (pctx st)\<lparr>grid := grid (pctx (fold parse_line prs st))\<rparr> \<and>
     grid_ok (pctx (fold parse_line prs st)) \<and>
     (\<forall>i < rows (pctx st). grid (pctx (fold parse_line prs st)) ! i =
        (if current_row st \<le> i \<and> i < current_row st + length prs
         then overwrite 0 (row_cells (cols (pctx st)) (prs ! (i - current_row st))) (grid (pctx st) ! i)
         else grid (pctx st) ! i))"
  using assms
proof (induction prs arbitrary: st)
  case Nil
  then show ?case by auto
next
  case (Cons l prs)
  let ?k = "current_row st" and ?c = "pctx st"
  from Cons.prems have l: "is_pattern_row l" and rest: "\<forall>l \<in> set prs. is_pattern_row l"
    by simp_all
  show ?case
  proof (cases "?k < rows ?c")
    case False
    with Cons.prems have k: "?k = rows ?c" by simp
    have "parse_line l st = st"
      using False by (simp add: parse_line_pattern [OF l Cons.prems(2)])
    with Cons.IH [OF rest Cons.prems(2,3,4)] k show ?thesis by simp
  next
    case True
    let ?c1 = "parse_row (c_str l) ?k 0 ?c"
    let ?st1 = "st\<lparr>pctx := ?c1, current_row := ?k + 1\<rparr>"
    have c1: "?c1 = ?c\<lparr>grid := (grid ?c)[?k := overwrite 0 (row_cells (cols ?c) l) (grid ?c ! ?k)]\<rparr>"
      using Cons.prems(3) True by (rule parse_row_pattern)
    have ok1: "grid_ok ?c1" using Cons.prems(3) True by (rule grid_ok_parse_row)
    have f1: "rows ?c1 = rows ?c" "cols ?c1 = cols ?c" by (simp_all add: c1)
    have step: "parse_line l st = ?st1"
      using True by (simp add: parse_line_pattern [OF l Cons.prems(2)])
    have IH: "in_grid_section (fold parse_line prs ?st1) \<and>
        current_row (fold parse_line prs ?st1) = min (?k + 1 + length prs) (rows ?c) \<and>
        pctx (fold parse_line prs ?st1) = ?c1\<lparr>grid := grid (pctx (fold parse_line prs ?st1))\<rparr> \<and>
        grid_ok (pctx (fold parse_line prs ?st1)) \<and>
        (\<forall>i < rows ?c. grid (pctx (fold parse_line prs ?st1)) ! i =
          (if ?k + 1 \<le> i \<and> i < ?k + 1 + length prs
           then overwrite 0 (row_cells (cols ?c) (prs ! (i - (?k + 1)))) (grid ?c1 ! i)
           else grid ?c1 ! i))"
      using Cons.IH [of ?st1] rest Cons.prems(2) ok1 True f1 by simp
    have len: "length (grid ?c) = rows ?c" using Cons.prems(3) by (simp add: grid_ok_iff)
    have g1: "grid ?c1 ! i =
        (if i = ?k then overwrite 0 (row_cells (cols ?c) l) (grid ?c ! ?k) else grid ?c ! i)"
      if "i < rows ?c" for i
      using that len by (subst c1) (simp add: nth_list_update)
    have cells: "grid (pctx (fold parse_line prs ?st1)) ! i =
        (if ?k \<le> i \<and> i < ?k + length (l # prs)
         then overwrite 0 (row_cells (cols ?c) ((l # prs) ! (i - ?k))) (grid ?c ! i)
         else grid ?c ! i)"
      if "i < rows ?c" for i
    proof (cases "i = ?k")
      case True
      then show ?thesis using IH that g1 [OF that] by simp
    next
      case False
      then have "(l # prs) ! (i - ?k) = prs ! (i - (?k + 1))" if "?k \<le> i"
      proof -
        from that False have "i - ?k = Suc (i - (?k + 1))" by simp
        then show ?thesis by simp
      qed
      then show ?thesis using IH \<open>i < rows ?c\<close> g1 [OF \<open>i < rows ?c\<close>] False by auto
    qed
    have frame: "pctx (fold parse_line prs ?st1) =
        ?c\<lparr>grid := grid (pctx (fold parse_line prs ?st1))\<rparr>"
    proof -
      from IH have "pctx (fold parse_line prs ?st1) =
          ?c1\<lparr>grid := grid (pctx (fold parse_line prs ?st1))\<rparr>" by blast
      then show ?thesis by (subst (asm) (2) c1) simp
    qed
    from IH have "in_grid_section (fold parse_line prs ?st1)"
      and "current_row (fold parse_line prs ?st1) = min (?k + length (l # prs)) (rows ?c)"
      and "grid_ok (pctx (fold parse_line prs ?st1))"
      by simp_all
    with frame cells show ?thesis by (simp add: step)
  qed
qed

lemma fill_in_order_result:
  assumes "grid_ok ctx" "\<forall>(i, j) \<in> set ps. i < rows ctx \<and> j < cols ctx"
  shows "pass_result ctx (set ps) f (fold (\<lambda>(i, j) c. set_cell c i j (f i j)) ps ctx)"
  using assms(2)
proof (induction ps rule: rev_induct)
  case Nil
  then show ?case using assms(1) by (simp add: pass_result_start)
next
  case (snoc p ps)
  obtain a b where p: "p = (a, b)" by (cases p)
  from snoc p have ab: "a < rows ctx" "b < cols ctx" by auto
  from snoc have "pass_result ctx (set ps) f (fold (\<lambda>(i, j) c. set_cell c i j (f i j)) ps ctx)"
    by simp
  from pass_result_set_cell [OF this ab] show ?case by (simp add: p)
qed

lemma cleared_grid:
  assumes "grid_ok ctx"
  shows "for_loop 0 (rows ctx) (\<lambda>i. for_loop 0 (cols ctx) (\<lambda>j c. set_cell c i j CELL_DEAD)) ctx =
     ctx\<lparr>grid := replicate (rows ctx) (replicate (cols ctx) CELL_DEAD)\<rparr>"
proof -
  let ?c = "for_loop 0 (rows ctx) (\<lambda>i. for_loop 0 (cols ctx) (\<lambda>j c. set_cell c i j CELL_DEAD)) ctx"
  have c: "?c = fold (\<lambda>(i, j) c. set_cell c i j CELL_DEAD) (row_major ctx) ctx"
    by (simp add: nested_for_loop_fold row_major_def)
  have P: "pass_result ctx (set (row_major ctx)) (\<lambda>i j. CELL_DEAD) ?c"
    unfolding c using assms by (rule fill_in_order_result) (simp add: set_row_major)
  then have f: "rows ?c = rows ctx" "cols ?c = cols ctx"
    using pass_result_fields by blast+
  from P have ok: "grid_ok ?c" and fr: "?c = ctx\<lparr>grid := grid ?c\<rparr>"
    and cells: "\<forall>i < rows ctx. \<forall>j < cols ctx. grid ?c ! i ! j = CELL_DEAD"
    by (simp_all add: pass_result_def set_row_major)
  have "grid ?c = map (\<lambda>i. map (\<lambda>j. CELL_DEAD) [0..<cols ?c]) [0..<rows ?c]"
    using ok cells f by (intro grid_eq_mapI) simp_all
  then have "grid ?c = replicate (rows ctx) (replicate (cols ctx) CELL_DEAD)"
    by (simp add: f map_replicate_const)
  with fr show ?thesis by simp
qed

lemma lines_ok_remove:
  assumes "lines_ok (pre @ l # post)"
  shows "lines_ok (pre @ post)"
proof -
  have "set (butlast (pre @ post)) \<subseteq> set (butlast (pre @ l # post))"
    by (cases post rule: rev_cases) (auto simp: butlast_append dest: in_set_butlastD)
  then show ?thesis
    using assms by (auto simp: lines_ok_def list_all_iff)
qed

lemma parse_lines:
  "lines_ok ls \<Longrightarrow>
   parse_manual_config (Some (concat ls)) ctx =
     (let st = fold parse_line ls \<lparr>in_grid_section = False, current_row = 0, pctx = ctx\<rparr>
      in (GOL_SUCCESS, pctx st,
          if in_grid_section st \<and> current_row st < rows ctx
          then Some (current_row st, rows ctx) else None))"
  by (simp add: parse_manual_config_def fgets_all_lines)

lemma lines_ok_prefix:
  assumes "lines_ok (pre @ l # post)"
  shows "lines_ok pre"
proof -
  have "butlast (pre @ l # post) = pre @ butlast (l # post)"
    by (simp add: butlast_append)
  then have "set (butlast pre) \<subseteq> set (butlast (pre @ l # post))"
    by (auto dest: in_set_butlastD)
  then show ?thesis
    using assms by (auto simp: lines_ok_def list_all_iff)
qed

lemma lines_ok_suffix:
  assumes "lines_ok (pre @ post)"
  shows "lines_ok post"
proof -
  have "set (butlast post) \<subseteq> set (butlast (pre @ post))"
    by (cases "post = []") (auto simp: butlast_append)
  then show ?thesis
    using assms by (auto simp: lines_ok_def list_all_iff)
qed

lemma rows_parse_row: "rows (parse_row cs r col ctx) = rows ctx"
  by (induction cs r col ctx rule: parse_row.induct) simp_all

lemma rows_parse_line: "rows (pctx (parse_line l st)) = rows (pctx st)"
  by (simp add: parse_line_def rows_parse_row split: list.splits)

lemma rows_fold_parse_line: "rows (pctx (fold parse_line ls st)) = rows (pctx st)"
  by (induction ls arbitrary: st) (simp_all add: rows_parse_line)

lemma parse_restart:
  assumes "lines_ok (pre @ g # post)" "starts_grid g"
  shows "parse_manual_config (Some (concat (pre @ g # post))) ctx =
         parse_manual_config (Some (concat (g # post)))
           (fst (snd (parse_manual_config (Some (concat pre)) ctx)))"
proof -
  let ?start = "\<lparr>in_grid_section = False, current_row = 0, pctx = ctx\<rparr>"
  let ?before = "fold parse_line pre ?start"
  let ?again = "\<lparr>in_grid_section = False, current_row = 0, pctx = pctx ?before\<rparr>"
  have pre: "lines_ok pre" using assms(1) by (rule lines_ok_prefix)
  have post: "lines_ok (g # post)" using assms(1) by (rule lines_ok_suffix)
  have ctx': "fst (snd (parse_manual_config (Some (concat pre)) ctx)) = pctx ?before"
    by (simp add: parse_lines [OF pre] Let_def)
  have "parse_line g ?before = parse_line g ?again"
    by (simp add: parse_line_marker [OF assms(2)])
  then have run: "fold parse_line (pre @ g # post) ?start = fold parse_line (g # post) ?again"
    by simp
  have "rows (pctx ?before) = rows ctx"
    by (simp add: rows_fold_parse_line)
  then show ?thesis
    unfolding ctx' parse_lines [OF assms(1)] parse_lines [OF post] run
    by (simp add: Let_def cong: if_cong)
qed

lemma overwrite_dead:
  "length ws \<le> n \<Longrightarrow> overwrite 0 ws (replicate n CELL_DEAD) = ws @ replicate (n - length ws) CELL_DEAD"
  by (simp add: overwrite_def)

lemma manual_grid:
  assumes "grid_ok ctx" "lines_ok (pre @ g # pat)"
    and "\<forall>l \<in> set pre. \<not> starts_grid l" "starts_grid g" "\<forall>l \<in> set pat. \<not> starts_grid l"
  shows "grid (initialize_grid_manual ctx (Some (concat (pre @ g # pat)))) =
         expected_grid (rows ctx) (cols ctx) (pattern_rows pat)"
proof -
  let ?c = "ctx\<lparr>grid := replicate (rows ctx) (replicate (cols ctx) CELL_DEAD)\<rparr>"
  let ?start = "\<lparr>in_grid_section = False, current_row = 0, pctx = ?c\<rparr>"
  let ?inside = "\<lparr>in_grid_section = True, current_row = 0, pctx = ?c\<rparr>"
  let ?prs = "pattern_rows pat"
  let ?final = "fold parse_line ?prs ?inside"
  have okc: "grid_ok ?c" by (simp add: grid_ok_def list_all_length)
  have "fold parse_line (pre @ g # pat) ?start = fold parse_line pat (parse_line g ?start)"
    using assms(3) by (simp add: fold_before_marker)
  also have "parse_line g ?start = ?inside"
    using assms(4) by (simp add: parse_line_marker)
  also have "fold parse_line pat ?inside = ?final"
    using assms(5) by (rule fold_pattern_rows)
  finally have run: "fold parse_line (pre @ g # pat) ?start = ?final" .
  have init: "grid (initialize_grid_manual ctx (Some (concat (pre @ g # pat)))) = grid (pctx ?final)"
    unfolding initialize_grid_manual_def cleared_grid [OF assms(1)] parse_lines [OF assms(2)]
      run Let_def by simp
  have "\<forall>l \<in> set ?prs. is_pattern_row l" by (simp add: pattern_rows_def)
  from fold_rows [OF this, of ?inside] okc
  have ok: "grid_ok (pctx ?final)"
    and fr: "pctx ?final = ?c\<lparr>grid := grid (pctx ?final)\<rparr>"
    and cells: "\<forall>i < rows ctx. grid (pctx ?final) ! i =
        (if i < length ?prs
         then overwrite 0 (row_cells (cols ctx) (?prs ! i)) (replicate (cols ctx) CELL_DEAD)
         else replicate (cols ctx) CELL_DEAD)"
    by simp_all
  have len: "length (grid (pctx ?final)) = rows ctx"
    using ok by (subst (asm) fr) (simp add: grid_ok_iff)
  have rc: "length (row_cells (cols ctx) l) \<le> cols ctx" for l
    by (simp add: row_cells_def)
  have "grid (pctx ?final) = expected_grid (rows ctx) (cols ctx) ?prs"
    using len cells by (intro nth_equalityI) (simp_all add: expected_grid_def overwrite_dead rc)
  with init show ?thesis by simp
qed

subsection \<open>Random cells\<close>

lemma smod_2_odd: "(r smod 2 \<noteq> 0) = odd (r :: int)"
  by (auto simp: signed_modulo_int_def sgn_if abs_if; presburger)

lemma advance_add: "advance libc g (m + n) = advance libc (advance libc g m) n"
  by (induction m arbitrary: g) simp_all

lemma draws_snoc:
  "draws libc g (Suc n) = draws libc g n @ [fst (rand libc (advance libc g n))]"
  by (induction n arbitrary: g) simp_all

lemma advance_Suc: "advance libc g (Suc n) = snd (rand libc (advance libc g n))"
  by (induction n arbitrary: g) simp_all

lemma length_draws [simp]: "length (draws libc g n) = n"
  by (induction n arbitrary: g) simp_all

lemma random_cell_eq:
  "random_cell libc i j (g, c) =
     (snd (rand libc g), set_cell c i j (cell_of_draw (fst (rand libc g))))"
  by (simp add: random_cell_def smod_2_odd cell_of_draw_def split: prod.splits)

lemma random_row:
  assumes "grid_ok c" "i < rows c" "n \<le> cols c"
  shows "fold (random_cell libc i) [0..<n] (g, c) =
     (advance libc g n,
      c\<lparr>grid := (grid c)[i := map cell_of_draw (draws libc g n) @ drop n (grid c ! i)]\<rparr>)"
  using assms(3)
proof (induction n)
  case 0
  then show ?case by simp
next
  case (Suc n)
  let ?row = "grid c ! i"
  have len: "length (grid c) = rows c" "length ?row = cols c"
    using assms by (simp_all add: grid_ok_iff)
  let ?c = "c\<lparr>grid := (grid c)[i := map cell_of_draw (draws libc g n) @ drop n ?row]\<rparr>"
  have "fold (random_cell libc i) [0..<Suc n] (g, c) =
      random_cell libc i n (advance libc g n, ?c)"
    using Suc by simp
  also have "\<dots> = (advance libc g (Suc n),
      set_cell ?c i n (cell_of_draw (fst (rand libc (advance libc g n)))))"
    by (simp only: random_cell_eq advance_Suc)
  also have "set_cell ?c i n (cell_of_draw (fst (rand libc (advance libc g n)))) =
      c\<lparr>grid := (grid c)[i := map cell_of_draw (draws libc g (Suc n)) @ drop (Suc n) ?row]\<rparr>"
  proof -
    have "(map cell_of_draw (draws libc g n) @ drop n ?row)[n := v] =
        map cell_of_draw (draws libc g n) @ [v] @ drop (Suc n) ?row" for v
      using Suc.prems len
      by (simp add: list_update_append upd_conv_take_nth_drop Cons_nth_drop_Suc [symmetric]
          drop_Suc [symmetric])
    then show ?thesis
      using assms(2) len by (simp add: set_cell_def draws_snoc del: draws.simps)
  qed
  finally show ?case .
qed

lemma random_rows:
  assumes "grid_ok c" "m \<le> rows c"
  shows "fold (\<lambda>i. fold (random_cell libc i) [0..<cols c]) [0..<m] (g, c) =
     (advance libc g (m * cols c),
      c\<lparr>grid := map (\<lambda>i. map cell_of_draw (draws libc (advance libc g (i * cols c)) (cols c)))
                     [0..<m] @ drop m (grid c)\<rparr>)"
  using assms(2)
proof (induction m)
  case 0
  then show ?case by simp
next
  case (Suc m)
  let ?f = "\<lambda>i. map cell_of_draw (draws libc (advance libc g (i * cols c)) (cols c))"
  let ?G = "map ?f [0..<m] @ drop m (grid c)"
  let ?c = "c\<lparr>grid := ?G\<rparr>"
  have len: "length (grid c) = rows c" "\<forall>i < rows c. length (grid c ! i) = cols c"
    using assms(1) by (simp_all add: grid_ok_iff)
  have m: "m < rows c" using Suc.prems by simp
  have lenG: "length ?G = rows c" using m len by simp
  have rowG: "length (?G ! k) = cols c" if "k < rows c" for k
    using that m len by (cases "k < m") (simp_all add: nth_append)
  have ok: "grid_ok ?c" using lenG rowG by (simp add: grid_ok_iff)
  have Gm: "?G ! m = grid c ! m" using m len by (simp add: nth_append)
  have "fold (\<lambda>i. fold (random_cell libc i) [0..<cols c]) [0..<Suc m] (g, c) =
      fold (random_cell libc m) [0..<cols ?c] (advance libc g (m * cols c), ?c)"
    using Suc by simp
  also have "\<dots> = (advance libc (advance libc g (m * cols c)) (cols ?c),
      ?c\<lparr>grid := (grid ?c)[m := map cell_of_draw
          (draws libc (advance libc g (m * cols c)) (cols ?c)) @ drop (cols ?c) (grid ?c ! m)]\<rparr>)"
    using ok m by (intro random_row) simp_all
  also have "advance libc (advance libc g (m * cols c)) (cols ?c) = advance libc g (Suc m * cols c)"
    by (simp add: advance_add [symmetric] add.commute)
  also have "?c\<lparr>grid := (grid ?c)[m := map cell_of_draw
          (draws libc (advance libc g (m * cols c)) (cols ?c)) @ drop (cols ?c) (grid ?c ! m)]\<rparr> =
      c\<lparr>grid := map ?f [0..<Suc m] @ drop (Suc m) (grid c)\<rparr>"
  proof -
    have "drop (cols c) (grid c ! m) = []" using m len by simp
    moreover have "?G[m := x] = map ?f [0..<m] @ [x] @ drop (Suc m) (grid c)" for x
      using m len
      by (simp add: list_update_append upd_conv_take_nth_drop Cons_nth_drop_Suc [symmetric]
          drop_Suc [symmetric])
    ultimately show ?thesis by (simp add: Gm)
  qed
  finally show ?case .
qed

lemma initialize_grid_random_eq:
  assumes "grid_ok c"
  shows "initialize_grid_random libc now (g, c) =
     (advance libc (srand libc (if seed (config c) = 0 then word_of_int now else seed (config c)))
        (rows c * cols c),
      c\<lparr>grid := random_grid libc (if seed (config c) = 0 then word_of_int now else seed (config c))
                    (rows c) (cols c)\<rparr>)"
proof -
  have "drop (rows c) (grid c) = []" using assms by (simp add: grid_ok_iff)
  then show ?thesis
    using random_rows [OF assms order_refl, of libc]
    by (simp add: initialize_grid_random_def for_loop_fold random_grid_def Let_def)
qed

lemma random_grid_first:
  "0 < nrows \<Longrightarrow> 0 < ncols \<Longrightarrow>
   random_grid libc s nrows ncols ! 0 ! 0 = cell_of_draw (fst (rand libc (srand libc s)))"
  by (cases ncols) (simp_all add: random_grid_def)

subsection \<open>Events\<close>

lemma handle_event_running: "\<not> running st \<Longrightarrow> \<not> running (handle_event libc now ev st)"
  by (auto simp: handle_event_def Let_def split: sdl_event.splits prod.splits)

lemma handle_event_quit: "\<not> running (handle_event libc now SDL_QUIT st)"
  by (simp add: handle_event_def)

lemma fold_handle_event_running:
  "\<not> running st \<Longrightarrow> \<not> running (fold (handle_event libc now) evs st)"
  by (induction evs arbitrary: st) (simp_all add: handle_event_running)

lemma fold_handle_event_quit:
  "SDL_QUIT \<in> set evs \<Longrightarrow> \<not> running (fold (handle_event libc now) evs st)"
proof (induction evs arbitrary: st)
  case Nil
  then show ?case by simp
next
  case (Cons ev evs)
  show ?case
  proof (cases "ev = SDL_QUIT")
    case True
    then show ?thesis by (simp add: handle_event_quit fold_handle_event_running)
  next
    case False
    with Cons show ?thesis by simp
  qed
qed

subsection \<open>Allocation\<close>

lemma calloc_row_pointers:
  "succeeds (calls h) \<Longrightarrow>
   calloc succeeds (RowPointers (replicate (mrows ctx) None)) h =
     (Some (Suc (brk h)), alloc_state h ctx 0)"
  by (auto simp: calloc_def alloc_state_def alloc_blocks_def fun_eq_iff)

lemma replicate_update_first:
  "0 < n \<Longrightarrow> (xs @ replicate n v)[length xs := w] = xs @ [w] @ replicate (n - 1) v"
  by (cases n) (simp_all add: list_update_append)

lemma alloc_step:
  assumes "i < mrows ctx" "succeeds (Suc (calls h) + i)"
  shows "calloc succeeds (Cells (replicate (mcols ctx) CELL_DEAD)) (alloc_state h ctx i) =
           (Some (Suc (brk h) + Suc i),
            (alloc_state h ctx i)\<lparr>blocks := (alloc_blocks h ctx i)
                 (Suc (brk h) + Suc i \<mapsto> Cells (replicate (mcols ctx) CELL_DEAD)),
               brk := Suc (brk h) + Suc i, calls := Suc (calls h) + Suc i\<rparr>)"
    and "store_row_ptr (Suc (brk h)) i (Some (Suc (brk h) + Suc i))
           ((alloc_state h ctx i)\<lparr>blocks := (alloc_blocks h ctx i)
                 (Suc (brk h) + Suc i \<mapsto> Cells (replicate (mcols ctx) CELL_DEAD)),
               brk := Suc (brk h) + Suc i, calls := Suc (calls h) + Suc i\<rparr>) =
         alloc_state h ctx (Suc i)"
proof -
  show "calloc succeeds (Cells (replicate (mcols ctx) CELL_DEAD)) (alloc_state h ctx i) =
           (Some (Suc (brk h) + Suc i),
            (alloc_state h ctx i)\<lparr>blocks := (alloc_blocks h ctx i)
                 (Suc (brk h) + Suc i \<mapsto> Cells (replicate (mcols ctx) CELL_DEAD)),
               brk := Suc (brk h) + Suc i, calls := Suc (calls h) + Suc i\<rparr>)"
    using assms(2) by (simp add: calloc_def alloc_state_def)
  have upd: "(map (\<lambda>k. Some (Suc (brk h) + Suc k)) [0..<i] @ replicate (mrows ctx - i) None)
        [i := Some (Suc (brk h) + Suc i)] =
      map (\<lambda>k. Some (Suc (brk h) + Suc k)) [0..<Suc i] @ replicate (mrows ctx - Suc i) None"
    using assms(1)
      replicate_update_first [of "mrows ctx - i" "map (\<lambda>k. Some (Suc (brk h) + Suc k)) [0..<i]"
        None "Some (Suc (brk h) + Suc i)"]
    by simp
  show "store_row_ptr (Suc (brk h)) i (Some (Suc (brk h) + Suc i))
           ((alloc_state h ctx i)\<lparr>blocks := (alloc_blocks h ctx i)
                 (Suc (brk h) + Suc i \<mapsto> Cells (replicate (mcols ctx) CELL_DEAD)),
               brk := Suc (brk h) + Suc i, calls := Suc (calls h) + Suc i\<rparr>) =
         alloc_state h ctx (Suc i)"
    unfolding store_row_ptr_def alloc_state_def
    using upd by (auto simp: alloc_blocks_def fun_eq_iff simp del: upt_Suc)
qed

lemma alloc_fail_step:
  assumes "i < mrows ctx" "\<not> succeeds (Suc (calls h) + i)"
  shows "calloc succeeds (Cells (replicate (mcols ctx) CELL_DEAD)) (alloc_state h ctx i) =
           (None, (alloc_state h ctx i)\<lparr>calls := Suc (Suc (calls h) + i)\<rparr>)"
    and "store_row_ptr (Suc (brk h)) i None ((alloc_state h ctx i)\<lparr>calls := Suc (Suc (calls h) + i)\<rparr>) =
         (alloc_state h ctx i)\<lparr>calls := Suc (Suc (calls h) + i)\<rparr>"
proof -
  show "calloc succeeds (Cells (replicate (mcols ctx) CELL_DEAD)) (alloc_state h ctx i) =
           (None, (alloc_state h ctx i)\<lparr>calls := Suc (Suc (calls h) + i)\<rparr>)"
    using assms(2) by (simp add: calloc_def alloc_state_def)
  have "(map (\<lambda>k. Some (Suc (brk h) + Suc k)) [0..<i] @ replicate (mrows ctx - i) None)[i := None] =
      map (\<lambda>k. Some (Suc (brk h) + Suc k)) [0..<i] @ replicate (mrows ctx - i) None"
    using assms(1) by (intro list_update_same_conv [THEN iffD2]) (simp_all add: nth_append)
  then show "store_row_ptr (Suc (brk h)) i None
        ((alloc_state h ctx i)\<lparr>calls := Suc (Suc (calls h) + i)\<rparr>) =
      (alloc_state h ctx i)\<lparr>calls := Suc (Suc (calls h) + i)\<rparr>"
    unfolding store_row_ptr_def alloc_state_def
    by (auto simp: alloc_blocks_def fun_eq_iff)
qed

lemma free_rows:
  assumes "m \<le> i" "i \<le> mrows ctx"
  shows "for_loop 0 m (\<lambda>j h. free_block (row_ptr h (Suc (brk h0)) j) h)
           \<lparr>blocks = alloc_blocks h0 ctx i, brk = b, calls = c\<rparr> =
         \<lparr>blocks = (\<lambda>a. if Suc (brk h0) < a \<and> a \<le> Suc (brk h0) + m then None
                        else alloc_blocks h0 ctx i a),
          brk = b, calls = c\<rparr>"
  using assms(1)
proof (induction m)
  case 0
  then show ?case by (auto simp: for_loop_fold fun_eq_iff)
next
  case (Suc m)
  let ?gp = "Suc (brk h0)"
  let ?h = "\<lparr>blocks = (\<lambda>a. if ?gp < a \<and> a \<le> ?gp + m then None else alloc_blocks h0 ctx i a),
             brk = b, calls = c\<rparr>"
  have "row_ptr ?h ?gp m = Some (?gp + Suc m)"
    using Suc.prems by (simp add: row_ptr_def alloc_blocks_def nth_append)
  then have "free_block (row_ptr ?h ?gp m) ?h =
      \<lparr>blocks = (\<lambda>a. if ?gp < a \<and> a \<le> ?gp + Suc m then None else alloc_blocks h0 ctx i a),
       brk = b, calls = c\<rparr>"
    by (auto simp: free_block_def fun_eq_iff)
  with Suc show ?case by (simp add: for_loop_fold)
qed

lemma alloc_rows_fails_now:
  assumes "heap_ok h" "i < mrows ctx" "\<not> succeeds (Suc (calls h) + i)"
  shows "alloc_rows succeeds (Suc (brk h)) i (alloc_state h ctx i, ctx) =
     (GOL_ERROR_MEMORY,
      \<lparr>blocks = blocks h, brk = Suc (brk h) + i, calls = Suc (Suc (calls h) + i)\<rparr>,
      ctx\<lparr>grid_ptr := None\<rparr>)"
proof -
  have fr: "for_loop 0 i (\<lambda>j h'. free_block (row_ptr h' (Suc (brk h)) j) h')
        ((alloc_state h ctx i)\<lparr>calls := Suc (Suc (calls h) + i)\<rparr>) =
      \<lparr>blocks = (\<lambda>a. if Suc (brk h) < a \<and> a \<le> Suc (brk h) + i then None
                     else alloc_blocks h ctx i a),
       brk = Suc (brk h) + i, calls = Suc (Suc (calls h) + i)\<rparr>"
    using free_rows [OF order_refl, of i ctx h "Suc (brk h) + i" "Suc (Suc (calls h) + i)"] assms(2)
    by (simp add: alloc_state_def)
  have "free_block (Some (Suc (brk h)))
        \<lparr>blocks = (\<lambda>a. if Suc (brk h) < a \<and> a \<le> Suc (brk h) + i then None
                     else alloc_blocks h ctx i a),
         brk = Suc (brk h) + i, calls = Suc (Suc (calls h) + i)\<rparr> =
      \<lparr>blocks = blocks h, brk = Suc (brk h) + i, calls = Suc (Suc (calls h) + i)\<rparr>"
    using assms(1) by (auto simp: free_block_def fun_eq_iff heap_ok_def alloc_blocks_def)
  with fr show ?thesis
    using assms(2,3) alloc_fail_step [where i = i and ctx = ctx and succeeds = succeeds and h = h]
    by (subst alloc_rows.simps) (simp add: Let_def)
qed

lemma alloc_rows_step:
  assumes "i < mrows ctx" "succeeds (Suc (calls h) + i)"
  shows "alloc_rows succeeds (Suc (brk h)) i (alloc_state h ctx i, ctx) =
         alloc_rows succeeds (Suc (brk h)) (Suc i) (alloc_state h ctx (Suc i), ctx)"
  using assms alloc_step [where i = i and ctx = ctx and succeeds = succeeds and h = h]
  by (subst alloc_rows.simps) (simp add: Let_def)

lemma alloc_rows_fails:
  assumes "heap_ok h" "i \<le> j" "j < mrows ctx"
    and "\<forall>k. i \<le> k \<and> k < j \<longrightarrow> succeeds (Suc (calls h) + k)"
    and "\<not> succeeds (Suc (calls h) + j)"
  shows "alloc_rows succeeds (Suc (brk h)) i (alloc_state h ctx i, ctx) =
     (GOL_ERROR_MEMORY,
      \<lparr>blocks = blocks h, brk = Suc (brk h) + j, calls = Suc (Suc (calls h) + j)\<rparr>,
      ctx\<lparr>grid_ptr := None\<rparr>)"
  using assms(2,4)
proof (induction "j - i" arbitrary: i)
  case 0
  then have "i = j" by simp
  then show ?case
    using alloc_rows_fails_now [of h j ctx succeeds] assms(1,3,5) by simp
next
  case (Suc n)
  then have i: "i < j" "i < mrows ctx" "succeeds (Suc (calls h) + i)"
    using assms(3) by auto
  have "alloc_rows succeeds (Suc (brk h)) (Suc i) (alloc_state h ctx (Suc i), ctx) =
     (GOL_ERROR_MEMORY,
      \<lparr>blocks = blocks h, brk = Suc (brk h) + j, calls = Suc (Suc (calls h) + j)\<rparr>,
      ctx\<lparr>grid_ptr := None\<rparr>)"
    using Suc.hyps(2) Suc.prems i by (intro Suc.hyps(1)) auto
  then show ?case
    using alloc_rows_step [where i = i and ctx = ctx and succeeds = succeeds and h = h] i by simp
qed

lemma alloc_rows_succeeds:
  assumes "i \<le> mrows ctx" "\<forall>k. i \<le> k \<and> k < mrows ctx \<longrightarrow> succeeds (Suc (calls h) + k)"
  shows "alloc_rows succeeds (Suc (brk h)) i (alloc_state h ctx i, ctx) =
     (GOL_SUCCESS, alloc_state h ctx (mrows ctx), ctx)"
  using assms
proof (induction "mrows ctx - i" arbitrary: i)
  case 0
  then have "i = mrows ctx" by simp
  then show ?case by (subst alloc_rows.simps) simp
next
  case (Suc n)
  then have i: "i < mrows ctx" "succeeds (Suc (calls h) + i)" by auto
  have "alloc_rows succeeds (Suc (brk h)) (Suc i) (alloc_state h ctx (Suc i), ctx) =
     (GOL_SUCCESS, alloc_state h ctx (mrows ctx), ctx)"
    using Suc.hyps(2) Suc.prems i by (intro Suc.hyps(1)) auto
  then show ?case
    using alloc_rows_step [where i = i and ctx = ctx and succeeds = succeeds and h = h] i by simp
qed

lemma alloc_rows_grid_ptr:
  "alloc_state h (ctx\<lparr>grid_ptr := p\<rparr>) i = alloc_state h ctx i"
  by (auto simp: alloc_state_def alloc_blocks_def fun_eq_iff)

lemma grid_of_allocated:
  "grid_of (alloc_state h ctx (mrows ctx)) (ctx\<lparr>grid_ptr := Some (Suc (brk h))\<rparr>) =
     Some (replicate (mrows ctx) (replicate (mcols ctx) CELL_DEAD))"
  by (auto simp: grid_of_def alloc_state_def alloc_blocks_def intro!: nth_equalityI)

lemma allocate_grid_no_pointers:
  "\<not> succeeds (calls h) \<Longrightarrow>
   allocate_grid succeeds (h, ctx) =
     (GOL_ERROR_MEMORY, h\<lparr>calls := Suc (calls h)\<rparr>, ctx\<lparr>grid_ptr := None\<rparr>)"
  by (simp add: allocate_grid_def calloc_def)

lemma allocate_grid_rows:
  "succeeds (calls h) \<Longrightarrow>
   allocate_grid succeeds (h, ctx) =
     alloc_rows succeeds (Suc (brk h)) 0
       (alloc_state h (ctx\<lparr>grid_ptr := Some (Suc (brk h))\<rparr>) 0, ctx\<lparr>grid_ptr := Some (Suc (brk h))\<rparr>)"
  by (simp add: allocate_grid_def calloc_row_pointers alloc_rows_grid_ptr)

subsection \<open>Evaluating the examples\<close>

lemma blinker_ok: "grid_ok blinker" "at_rest blinker"
  by (simp_all add: grid_ok_def at_rest_def blinker_def)

lemmas count_neighbors_eval =
  count_neighbors_def count_neighbors_reads_def visit_neighbor_def is_valid_position_def
  int_of_size_def

lemma wide_row_ok: "grid_ok wide_row" "at_rest wide_row"
  by (simp_all add: grid_ok_def at_rest_def wide_row_def list_all_length)

lemma wide_row_cells:
  "grid wide_row ! 0 ! 0 = CELL_ALIVE" "grid wide_row ! 0 ! 1 = CELL_ALIVE"
  "grid wide_row ! 0 ! 2 = CELL_ALIVE" "(0::nat) < rows wide_row" "(1::nat) < cols wide_row"
  by (simp_all add: wide_row_def)

lemma wide_row_reads: "count_neighbors_reads wide_row 0 1 = (0, [])"
  by (simp add: count_neighbors_eval wide_row_def)

lemma wide_row_count: "count_neighbors wide_row 0 1 = 0"
  using wide_row_reads by (simp add: count_neighbors_def)

lemma wide_row_live: "int (card (live_neighbors wide_row 0 1)) = 2"
proof -
  have "live_neighbors wide_row 0 1 = {(0, -1), (0, 1)}"
    by (auto simp: live_neighbors_def moore_offsets_def wide_row_def live_def)
  then show ?thesis by simp
qed

lemmas line_eval = lines_ok_def line_ok_def text_line_def newline_def NUL_def BUFFER_SIZE_def
  starts_grid_def

lemmas pattern_eval = expected_grid_def pattern_rows_def is_pattern_row_def row_cells_def
  c_str_def cell_of_char_def List.map_filter_def text_line_def newline_def NUL_def

lemma five_ok: "grid_ok five_by_five"
  by (simp add: grid_ok_def five_by_five_def list_all_length)

lemmas parse_eval = parse_line_def c_str_def is_alive_char_def is_dead_char_def set_cell_def
  text_line_def newline_def NUL_def

lemma parse_two_cells:
  "parse_manual_config (Some (concat (map text_line [''@grid'', ''1'', ''0'']))) two_cells =
     (GOL_SUCCESS, two_cells\<lparr>grid := [[CELL_ALIVE], [CELL_DEAD]]\<rparr>, None)"
proof -
  have "lines_ok (map text_line [''@grid'', ''1'', ''0''])" by (simp add: line_eval)
  from parse_lines [OF this] show ?thesis
    by (simp add: parse_eval two_cells_def)
qed

lemma parse_one_cell:
  "parse_manual_config (Some (concat (map text_line [''@grid'', ''1'']))) two_cells =
     (GOL_SUCCESS, two_cells\<lparr>grid := [[CELL_ALIVE], [CELL_DEAD]]\<rparr>, Some (1, 2))"
proof -
  have "lines_ok (map text_line [''@grid'', ''1''])" by (simp add: line_eval)
  from parse_lines [OF this] show ?thesis
    by (simp add: parse_eval two_cells_def)
qed

lemma example_first_draws:
  "fst (rand example_libc (srand example_libc 1)) = 16838"
  "fst (rand example_libc (srand example_libc 3)) = 17747"
  by (simp_all add: example_libc_def)

lemma blinker_step:
  "simulate_step blinker = blinker\<lparr>grid :=
     [[CELL_DEAD, CELL_DEAD, CELL_DEAD],
      [CELL_ALIVE, CELL_ALIVE, CELL_ALIVE],
      [CELL_DEAD, CELL_DEAD, CELL_DEAD]]\<rparr>"
  by code_simp

lemma quit_tick:
  "tick example_libc 0 [SDL_QUIT] start_state =
     \<lparr>running = False, generation = 1,
      sim_ctx = blinker\<lparr>grid :=
        [[CELL_DEAD, CELL_DEAD, CELL_DEAD],
         [CELL_ALIVE, CELL_ALIVE, CELL_ALIVE],
         [CELL_DEAD, CELL_DEAD, CELL_DEAD]]\<rparr>,
      libc_state = 0,
      effects = [Rendered (grid blinker), Delayed 25]\<rparr>"
  by (simp add: tick_def handle_event_def start_state_def blinker_step FRAME_DELAY_MS_def Let_def)

section \<open>The claims about the grid, the step and the click\<close>

text \<open>
  Claim C1 does not hold on the code for every grid at rest. The step applies the rule of
  the game with the number that \<^verbatim>\<open>count_neighbors\<close> returns, and on a grid whose width does
  not fit \<^verbatim>\<open>int\<close> that number is not the number of live neighbours: on the single row of
  \<open>2 ^ 31\<close> live cells, which is at rest, the cell at column 1 is alive and has two live
  neighbours, \<^verbatim>\<open>count_neighbors\<close> returns 0 for it, and after \<^verbatim>\<open>simulate_step\<close> the cell is
  dead, where the rule keeps it alive.
\<close>

theorem step_wide_row:
  "grid_ok wide_row \<and> at_rest wide_row \<and>
   grid wide_row ! 0 ! 1 = CELL_ALIVE \<and> int (card (live_neighbors wide_row 0 1)) = 2 \<and>
   count_neighbors wide_row 0 1 = 0 \<and>
   grid (simulate_step wide_row) ! 0 ! 1 = CELL_DEAD"
proof -
  have "grid (simulate_step wide_row) ! 0 ! 1 =
      next_state (grid wide_row ! 0 ! 1) (count_neighbors wide_row 0 1)"
    using wide_row_ok wide_row_cells(4,5) by (rule simulate_step_cell)
  also have "\<dots> = CELL_DEAD"
    unfolding wide_row_cells(2) wide_row_count by (simp add: next_state_def)
  finally show ?thesis
    using wide_row_ok wide_row_cells(2) wide_row_live wide_row_count by blast
qed

text \<open>
  Claim C3. On a grid at rest the step does not depend on the order of the mark pass: the
  loops of \<^verbatim>\<open>simulate_step\<close> visit the cells in row-major order, marking in any order \<open>ps\<close>
  that covers the same cells (every permutation of the row-major order does) and then
  applying gives the grid of \<^verbatim>\<open>simulate_step\<close>, and that grid is the one of the reference
  step, which computes every cell from the untouched grid before the step.
\<close>

theorem step_order_independent:
  assumes "grid_ok ctx" "at_rest ctx" "set ps = set (row_major ctx)"
  shows "mark_phase ctx = mark_in_order (row_major ctx) ctx \<and>
         apply_phase (mark_in_order ps ctx) = simulate_step ctx \<and>
         simulate_step ctx = reference_step ctx"
  using assms
  by (simp add: mark_phase_row_major marked_then_applied simulate_step_reference)

theorem step_order_independent_witness:
  "apply_phase (mark_in_order (rev (row_major blinker)) blinker) = simulate_step blinker \<and>
   simulate_step blinker = reference_step blinker \<and>
   grid (simulate_step blinker) =
     [[CELL_DEAD, CELL_DEAD, CELL_DEAD],
      [CELL_ALIVE, CELL_ALIVE, CELL_ALIVE],
      [CELL_DEAD, CELL_DEAD, CELL_DEAD]]"
proof -
  have "set (rev (row_major blinker)) = set (row_major blinker)"
    by (rule set_rev)
  note order = step_order_independent [OF blinker_ok this]
  have "grid (simulate_step blinker) =
     [[CELL_DEAD, CELL_DEAD, CELL_DEAD],
      [CELL_ALIVE, CELL_ALIVE, CELL_ALIVE],
      [CELL_DEAD, CELL_DEAD, CELL_DEAD]]"
    by code_simp
  with order show ?thesis by blast
qed

text \<open>
  Claim C2 does not hold on the code for every grid. \<^verbatim>\<open>is_valid_position\<close> compares with
  \<^verbatim>\<open>(int)ctx->rows\<close> and \<^verbatim>\<open>(int)ctx->cols\<close>: on the single row of \<open>2 ^ 31\<close> live cells the
  width becomes negative, the positions (0,0) and (0,2) of the grid are rejected, and for
  the cell at column 1 \<^verbatim>\<open>count_neighbors\<close> reads no cell and returns 0, where two positions of
  the Moore neighbourhood lie in the grid and hold a live cell.
\<close>

theorem count_neighbors_wide_row:
  "(0::nat) < rows wide_row \<and> (1::nat) < cols wide_row \<and>
   grid wide_row ! 0 ! 0 = CELL_ALIVE \<and> grid wide_row ! 0 ! 2 = CELL_ALIVE \<and>
   \<not> is_valid_position wide_row 0 0 \<and> \<not> is_valid_position wide_row 0 2 \<and>
   int (card (live_neighbors wide_row 0 1)) = 2 \<and>
   count_neighbors_reads wide_row 0 1 = (0, []) \<and>
   count_neighbors wide_row 0 1 = 0"
proof -
  have "\<not> is_valid_position wide_row 0 0" "\<not> is_valid_position wide_row 0 2"
    by (simp_all add: is_valid_position_def int_of_size_def wide_row_def)
  then show ?thesis
    using wide_row_cells(1,3,4,5) wide_row_live wide_row_reads wide_row_count by blast
qed

text \<open>
  Claim C6. On a grid at rest, a click at pixel \<open>(x, y)\<close> is mapped to row \<open>y / CELL_SIZE\<close>
  and column \<open>x / CELL_SIZE\<close> (the division of C, which truncates towards zero). If that
  position is inside the grid, its cell goes from alive to dead or from dead to alive and
  every other cell keeps its state; otherwise the context is returned as it was.
\<close>

theorem click_toggles_one_cell:
  assumes "grid_ok ctx" "at_rest ctx" "allocatable ctx"
    and "r = sint y sdiv CELL_SIZE" "c = sint x sdiv CELL_SIZE"
  shows "(0 \<le> r \<and> r < int (rows ctx) \<and> 0 \<le> c \<and> c < int (cols ctx) \<longrightarrow>
            (grid ctx ! nat r ! nat c = CELL_ALIVE \<longrightarrow>
               grid (handle_mouse_click ctx x y) ! nat r ! nat c = CELL_DEAD) \<and>
            (grid ctx ! nat r ! nat c = CELL_DEAD \<longrightarrow>
               grid (handle_mouse_click ctx x y) ! nat r ! nat c = CELL_ALIVE) \<and>
            (\<forall>i < rows ctx. \<forall>j < cols ctx. (i, j) \<noteq> (nat r, nat c) \<longrightarrow>
               grid (handle_mouse_click ctx x y) ! i ! j = grid ctx ! i ! j) \<and>
            grid_ok (handle_mouse_click ctx x y) \<and>
            handle_mouse_click ctx x y = ctx\<lparr>grid := grid (handle_mouse_click ctx x y)\<rparr>) \<and>
         (\<not> (0 \<le> r \<and> r < int (rows ctx) \<and> 0 \<le> c \<and> c < int (cols ctx)) \<longrightarrow>
            handle_mouse_click ctx x y = ctx)"
proof -
  have rc: "r = pixel_to_cell y" "c = pixel_to_cell x"
    using assms(4,5) by (simp_all add: pixel_to_cell_def)
  show ?thesis
  proof (cases "0 \<le> r \<and> r < int (rows ctx) \<and> 0 \<le> c \<and> c < int (cols ctx)")
    case False
    then have nb: "\<not> (0 \<le> pixel_to_cell y \<and> pixel_to_cell y < int (rows ctx) \<and>
        0 \<le> pixel_to_cell x \<and> pixel_to_cell x < int (cols ctx))"
      unfolding rc .
    have "handle_mouse_click ctx x y = ctx"
      by (subst handle_mouse_click_eq [OF assms(3)]) (simp only: nb if_False)
    with False show ?thesis by blast
  next
    case True
    then have inb: "nat r < rows ctx" "nat c < cols ctx" by linarith+
    have eq: "handle_mouse_click ctx x y =
        set_cell ctx (nat r) (nat c) (toggled (grid ctx ! nat r ! nat c))"
      using handle_mouse_click_eq [OF assms(3), of x y] rc True by simp
    have "grid (handle_mouse_click ctx x y) ! i ! j =
        (if i = nat r \<and> j = nat c then toggled (grid ctx ! nat r ! nat c) else grid ctx ! i ! j)"
      if "i < rows ctx" for i j
      unfolding eq using assms(1) inb that by (simp add: nth_set_cell)
    moreover have "grid_ok (handle_mouse_click ctx x y)"
      unfolding eq using assms(1) by (rule grid_ok_set_cell)
    moreover have "handle_mouse_click ctx x y = ctx\<lparr>grid := grid (handle_mouse_click ctx x y)\<rparr>"
      unfolding eq by (rule set_cell_frame)
    ultimately show ?thesis using True inb by (auto simp: toggled_def)
  qed
qed

theorem click_toggles_one_cell_witness:
  "grid (handle_mouse_click blinker 9 20) = 
      [[CELL_DEAD, CELL_ALIVE, CELL_DEAD],
       [CELL_DEAD, CELL_ALIVE, CELL_DEAD],
       [CELL_DEAD, CELL_DEAD, CELL_DEAD]] \<and>
   grid (handle_mouse_click blinker 9 20) ! 2 ! 1 = CELL_DEAD \<and>
   handle_mouse_click blinker 30 4 = blinker"
proof -
  have a: "allocatable blinker" by (simp add: allocatable_def blinker_def)
  have q: "sint (20 :: c_int) sdiv CELL_SIZE = 2" "sint (9 :: c_int) sdiv CELL_SIZE = 1"
    "sint (30 :: c_int) sdiv CELL_SIZE = 3" "sint (4 :: c_int) sdiv CELL_SIZE = 0"
    by (simp_all add: CELL_SIZE_def signed_divide_int_def)
  have g: "grid (handle_mouse_click blinker 9 20) = 
      [[CELL_DEAD, CELL_ALIVE, CELL_DEAD],
       [CELL_DEAD, CELL_ALIVE, CELL_DEAD],
       [CELL_DEAD, CELL_DEAD, CELL_DEAD]]"
    by (simp add: handle_mouse_click_def size_of_int_def CELL_SIZE_def signed_divide_int_def
        set_cell_def blinker_def)
  have "grid (handle_mouse_click blinker 9 20) ! 2 ! 1 = CELL_DEAD"
    using click_toggles_one_cell [OF blinker_ok a q(1,2) [symmetric]]
    by (simp add: blinker_def)
  moreover have "handle_mouse_click blinker 30 4 = blinker"
    using click_toggles_one_cell [OF blinker_ok a q(4,3) [symmetric]]
    by (simp add: blinker_def)
  ultimately show ?thesis using g by simp
qed

text \<open>
  Claim C10. When the click maps to a cell inside the grid, every state other than
  \<^verbatim>\<open>CELL_ALIVE\<close>, the marks \<^verbatim>\<open>CELL_DYING\<close> and \<^verbatim>\<open>CELL_BIRTH\<close> among them, becomes
  \<^verbatim>\<open>CELL_ALIVE\<close>; only \<^verbatim>\<open>CELL_ALIVE\<close> becomes \<^verbatim>\<open>CELL_DEAD\<close>.
\<close>

theorem click_non_alive_becomes_alive:
  assumes "grid_ok ctx"
    and "row = size_of_int (sint y sdiv CELL_SIZE)" "col = size_of_int (sint x sdiv CELL_SIZE)"
    and "row < rows ctx" "col < cols ctx"
  shows "(grid ctx ! row ! col \<noteq> CELL_ALIVE \<longrightarrow>
            grid (handle_mouse_click ctx x y) ! row ! col = CELL_ALIVE) \<and>
         (grid ctx ! row ! col = CELL_ALIVE \<longrightarrow>
            grid (handle_mouse_click ctx x y) ! row ! col = CELL_DEAD)"
  using assms by (simp add: handle_mouse_click_def Let_def nth_set_cell)

theorem click_non_alive_becomes_alive_witness:
  "grid (handle_mouse_click mid_step 0 0) ! 0 ! 0 = CELL_ALIVE \<and>
   grid (handle_mouse_click mid_step 8 0) ! 0 ! 1 = CELL_ALIVE \<and>
   grid (handle_mouse_click mid_step 0 8) ! 1 ! 0 = CELL_DEAD"
proof -
  have ok: "grid_ok mid_step" by (simp add: grid_ok_def mid_step_def)
  have q: "size_of_int (sint (0 :: c_int) sdiv CELL_SIZE) = 0"
    "size_of_int (sint (8 :: c_int) sdiv CELL_SIZE) = 1"
    by (simp_all add: CELL_SIZE_def signed_divide_int_def size_of_int_def)
  have d: "rows mid_step = 2" "cols mid_step = 2"
    "grid mid_step ! 0 ! 0 = CELL_DYING" "grid mid_step ! 0 ! 1 = CELL_BIRTH"
    "grid mid_step ! 1 ! 0 = CELL_ALIVE"
    by (simp_all add: mid_step_def)
  show ?thesis
    using click_non_alive_becomes_alive [OF ok q(1,1) [symmetric]]
      click_non_alive_becomes_alive [OF ok q(1,2) [symmetric]]
      click_non_alive_becomes_alive [OF ok q(2,1) [symmetric]] d
    by simp
qed

section \<open>The claims about the manual pattern\<close>

text \<open>
  Claim C5, amended. Manual initialization sets every cell dead and then applies the pattern
  rows that follow the line starting with \<^verbatim>\<open>@grid\<close>: the lines after it that start with neither
  \<^verbatim>\<open>#\<close> nor \<^verbatim>\<open>@\<close> nor a newline. In the \<open>k\<close>-th pattern row, up to its first NUL byte, each of
  \<^verbatim>\<open>1 # * X\<close> gives a live cell and each of \<^verbatim>\<open>0 .\<close> and the space a dead one, any other
  character gives no cell; cells beyond \<^verbatim>\<open>cols\<close> and pattern rows beyond \<^verbatim>\<open>rows\<close> are ignored,
  and cells that no character writes stay dead. The file is a sequence of lines shorter than
  the read buffer, with a single \<^verbatim>\<open>@grid\<close> line. When the file cannot be opened, every cell
  is dead.
\<close>

theorem manual_initialization:
  assumes "grid_ok ctx" "lines_ok (pre @ g # pat)"
    and "\<forall>l \<in> set pre. \<not> starts_grid l" "starts_grid g" "\<forall>l \<in> set pat. \<not> starts_grid l"
  shows "grid (initialize_grid_manual ctx (Some (concat (pre @ g # pat)))) =
           expected_grid (rows ctx) (cols ctx) (pattern_rows pat) \<and>
         grid (initialize_grid_manual ctx None) =
           replicate (rows ctx) (replicate (cols ctx) CELL_DEAD)"
proof -
  have "grid (initialize_grid_manual ctx None) =
      replicate (rows ctx) (replicate (cols ctx) CELL_DEAD)"
    using assms(1) by (simp add: initialize_grid_manual_def parse_manual_config_def cleared_grid)
  with manual_grid [OF assms] show ?thesis by blast
qed

text \<open>
  The example of the claim: the file of \<^verbatim>\<open>print_usage\<close> on a 5 by 5 grid leaves exactly the
  cells (0,2), (1,2) and (2,2) alive.
\<close>

theorem manual_initialization_witness:
  "grid (initialize_grid_manual five_by_five (Some (concat usage_file))) =
     [[CELL_DEAD, CELL_DEAD, CELL_ALIVE, CELL_DEAD, CELL_DEAD],
      [CELL_DEAD, CELL_DEAD, CELL_ALIVE, CELL_DEAD, CELL_DEAD],
      [CELL_DEAD, CELL_DEAD, CELL_ALIVE, CELL_DEAD, CELL_DEAD],
      [CELL_DEAD, CELL_DEAD, CELL_DEAD, CELL_DEAD, CELL_DEAD],
      [CELL_DEAD, CELL_DEAD, CELL_DEAD, CELL_DEAD, CELL_DEAD]]"
proof -
  let ?pre = "map text_line [''@nrows 5'', ''@ncols 5'', ''@config manual'']"
  let ?g = "text_line ''@grid''"
  let ?pat = "map text_line [''00100'', ''00100'', ''00100'', ''00000'', ''00000'']"
  have split: "usage_file = ?pre @ ?g # ?pat" by (simp add: usage_file_def)
  have "lines_ok (?pre @ ?g # ?pat)" by (simp add: line_eval)
  moreover have "\<forall>l \<in> set ?pre. \<not> starts_grid l" by (simp add: line_eval)
  moreover have "starts_grid ?g" by (simp add: line_eval)
  moreover have "\<forall>l \<in> set ?pat. \<not> starts_grid l" by (simp add: line_eval)
  ultimately have "grid (initialize_grid_manual five_by_five (Some (concat (?pre @ ?g # ?pat)))) =
      expected_grid (rows five_by_five) (cols five_by_five) (pattern_rows ?pat)"
    using manual_initialization [OF five_ok] by blast
  also have "\<dots> = [[CELL_DEAD, CELL_DEAD, CELL_ALIVE, CELL_DEAD, CELL_DEAD],
      [CELL_DEAD, CELL_DEAD, CELL_ALIVE, CELL_DEAD, CELL_DEAD],
      [CELL_DEAD, CELL_DEAD, CELL_ALIVE, CELL_DEAD, CELL_DEAD],
      [CELL_DEAD, CELL_DEAD, CELL_DEAD, CELL_DEAD, CELL_DEAD],
      [CELL_DEAD, CELL_DEAD, CELL_DEAD, CELL_DEAD, CELL_DEAD]]"
    by (simp add: pattern_eval five_by_five_def upt_rec eval_nat_numeral)
  finally show ?thesis by (simp only: split)
qed

text \<open>
  Claim C5 as stated fails on a pattern row that starts with \<^verbatim>\<open>#\<close>: the parser takes the line
  for a comment, so the last row of this glider stays dead, where the three rows read
  character by character give three live cells.
\<close>

theorem hash_row_dropped:
  "grid (initialize_grid_manual blinker (Some (concat glider_file))) =
     [[CELL_DEAD, CELL_ALIVE, CELL_DEAD],
      [CELL_DEAD, CELL_DEAD, CELL_ALIVE],
      [CELL_DEAD, CELL_DEAD, CELL_DEAD]] \<and>
   expected_grid 3 3 (map text_line [''.#.'', ''..#'', ''###'']) =
     [[CELL_DEAD, CELL_ALIVE, CELL_DEAD],
      [CELL_DEAD, CELL_DEAD, CELL_ALIVE],
      [CELL_ALIVE, CELL_ALIVE, CELL_ALIVE]]"
proof -
  let ?g = "text_line ''@grid''"
  let ?pat = "map text_line [''.#.'', ''..#'', ''###'']"
  have split: "glider_file = [] @ ?g # ?pat" by (simp add: glider_file_def)
  have "lines_ok ([] @ ?g # ?pat)" by (simp add: line_eval)
  moreover have "\<forall>l \<in> set []. \<not> starts_grid l" by simp
  moreover have "starts_grid ?g" by (simp add: line_eval)
  moreover have "\<forall>l \<in> set ?pat. \<not> starts_grid l" by (simp add: line_eval)
  ultimately have "grid (initialize_grid_manual blinker (Some (concat ([] @ ?g # ?pat)))) =
      expected_grid (rows blinker) (cols blinker) (pattern_rows ?pat)"
    by (rule manual_grid [OF blinker_ok(1)])
  also have "\<dots> = [[CELL_DEAD, CELL_ALIVE, CELL_DEAD],
      [CELL_DEAD, CELL_DEAD, CELL_ALIVE],
      [CELL_DEAD, CELL_DEAD, CELL_DEAD]]"
    by (simp add: pattern_eval blinker_def upt_rec eval_nat_numeral)
  finally have "grid (initialize_grid_manual blinker (Some (concat glider_file))) =
     [[CELL_DEAD, CELL_ALIVE, CELL_DEAD],
      [CELL_DEAD, CELL_DEAD, CELL_ALIVE],
      [CELL_DEAD, CELL_DEAD, CELL_DEAD]]"
    by (simp only: split)
  moreover have "expected_grid 3 3 (map text_line [''.#.'', ''..#'', ''###'']) =
     [[CELL_DEAD, CELL_ALIVE, CELL_DEAD],
      [CELL_DEAD, CELL_DEAD, CELL_ALIVE],
      [CELL_ALIVE, CELL_ALIVE, CELL_ALIVE]]"
    by (simp add: pattern_eval upt_rec eval_nat_numeral)
  ultimately show ?thesis by simp
qed

text \<open>
  Claim C9, amended. A line that starts with \<^verbatim>\<open>@\<close> but not with \<^verbatim>\<open>@grid\<close> leaves the state of the
  parser as it is, inside the grid section as elsewhere: it writes no cell and does not move
  the current row, and the parser gives the same result on the file without the line. A
  line that starts with \<^verbatim>\<open>@grid\<close> is not skipped: it sets the current row back to 0 in
  whatever state it is read, and the parser goes on as on a file that begins with that
  line, over the cells that the lines before it have written.
\<close>

theorem at_line_skipped:
  assumes "lines_ok (pre @ (CHR ''@'' # t) # post)"
  shows "(\<not> starts_grid (CHR ''@'' # t) \<longrightarrow>
            parse_line (CHR ''@'' # t) st = st \<and>
            parse_manual_config (Some (concat (pre @ (CHR ''@'' # t) # post))) ctx =
            parse_manual_config (Some (concat (pre @ post))) ctx) \<and>
         (starts_grid (CHR ''@'' # t) \<longrightarrow>
            parse_line (CHR ''@'' # t) st = st\<lparr>in_grid_section := True, current_row := 0\<rparr> \<and>
            parse_manual_config (Some (concat (pre @ (CHR ''@'' # t) # post))) ctx =
            parse_manual_config (Some (concat ((CHR ''@'' # t) # post)))
              (fst (snd (parse_manual_config (Some (concat pre)) ctx))))"
proof (intro conjI impI)
  assume n: "\<not> starts_grid (CHR ''@'' # t)"
  then show "parse_line (CHR ''@'' # t) st = st" by (rule parse_line_at)
  have skip: "parse_line (CHR ''@'' # t) s = s" for s
    using n by (rule parse_line_at)
  have "lines_ok (pre @ post)" using assms by (rule lines_ok_remove)
  then show "parse_manual_config (Some (concat (pre @ (CHR ''@'' # t) # post))) ctx =
      parse_manual_config (Some (concat (pre @ post))) ctx"
    unfolding parse_lines [OF assms] parse_lines [OF \<open>lines_ok (pre @ post)\<close>]
    by (simp add: skip)
next
  assume g: "starts_grid (CHR ''@'' # t)"
  then show "parse_line (CHR ''@'' # t) st = st\<lparr>in_grid_section := True, current_row := 0\<rparr>"
    by (rule parse_line_marker)
  from assms g show "parse_manual_config (Some (concat (pre @ (CHR ''@'' # t) # post))) ctx =
      parse_manual_config (Some (concat ((CHR ''@'' # t) # post)))
        (fst (snd (parse_manual_config (Some (concat pre)) ctx)))"
    by (rule parse_restart)
qed

text \<open>
  Both kinds of line after the pattern row \<^verbatim>\<open>1\<close> on a grid of two rows: with \<^verbatim>\<open>@steps 5\<close>
  between the rows the file is read like the one without it, and with \<^verbatim>\<open>@grid\<close> between
  them the row \<^verbatim>\<open>0\<close> is read like the first row of a file of its own, over the live cell
  that the row \<^verbatim>\<open>1\<close> has left.
\<close>

theorem at_line_skipped_witness:
  "parse_manual_config (Some (concat (map text_line [''@grid'', ''1'', ''@steps 5'', ''0'']))) two_cells =
     (GOL_SUCCESS, two_cells\<lparr>grid := [[CELL_ALIVE], [CELL_DEAD]]\<rparr>, None) \<and>
   parse_manual_config (Some (concat (map text_line [''@grid'', ''1'', ''@grid'', ''0'']))) two_cells =
     parse_manual_config (Some (concat (map text_line [''@grid'', ''0''])))
       (two_cells\<lparr>grid := [[CELL_ALIVE], [CELL_DEAD]]\<rparr>)"
proof -
  let ?pre = "map text_line [''@grid'', ''1'']" and ?post = "map text_line [''0'']"
  have l: "text_line ''@steps 5'' = CHR ''@'' # text_line ''steps 5''"
    "text_line ''@grid'' = CHR ''@'' # text_line ''grid''"
    by (simp_all add: text_line_def)
  have "lines_ok (?pre @ (CHR ''@'' # text_line ''steps 5'') # ?post)" by (simp add: line_eval)
  moreover have "\<not> starts_grid (CHR ''@'' # text_line ''steps 5'')" by (simp add: line_eval)
  ultimately have "parse_manual_config
        (Some (concat (?pre @ (CHR ''@'' # text_line ''steps 5'') # ?post))) two_cells =
      parse_manual_config (Some (concat (?pre @ ?post))) two_cells"
    using at_line_skipped by blast
  then have skipped: "parse_manual_config
      (Some (concat (map text_line [''@grid'', ''1'', ''@steps 5'', ''0'']))) two_cells =
      (GOL_SUCCESS, two_cells\<lparr>grid := [[CELL_ALIVE], [CELL_DEAD]]\<rparr>, None)"
    using parse_two_cells by (simp add: l)
  have "lines_ok (?pre @ (CHR ''@'' # text_line ''grid'') # ?post)" by (simp add: line_eval)
  moreover have "starts_grid (CHR ''@'' # text_line ''grid'')" by (simp add: line_eval)
  ultimately have "parse_manual_config
        (Some (concat (?pre @ (CHR ''@'' # text_line ''grid'') # ?post))) two_cells =
      parse_manual_config (Some (concat ((CHR ''@'' # text_line ''grid'') # ?post)))
        (fst (snd (parse_manual_config (Some (concat ?pre)) two_cells)))"
    using at_line_skipped by blast
  then have "parse_manual_config
      (Some (concat (map text_line [''@grid'', ''1'', ''@grid'', ''0'']))) two_cells =
      parse_manual_config (Some (concat (map text_line [''@grid'', ''0''])))
       (two_cells\<lparr>grid := [[CELL_ALIVE], [CELL_DEAD]]\<rparr>)"
    using parse_one_cell by (simp add: l)
  with skipped show ?thesis by blast
qed

text \<open>
  Claim C9 as stated fails on a line that starts with \<^verbatim>\<open>@grid\<close> inside the grid section: it
  sets the current row back to 0, so the pattern row after it overwrites row 0 instead of
  filling row 1.
\<close>

theorem second_grid_marker_restarts:
  "parse_manual_config (Some (concat (map text_line [''@grid'', ''1'', ''@grid'', ''0'']))) two_cells =
     (GOL_SUCCESS, two_cells\<lparr>grid := [[CELL_DEAD], [CELL_DEAD]]\<rparr>, Some (1, 2)) \<and>
   parse_manual_config (Some (concat (map text_line [''@grid'', ''1'', ''0'']))) two_cells =
     (GOL_SUCCESS, two_cells\<lparr>grid := [[CELL_ALIVE], [CELL_DEAD]]\<rparr>, None)"
proof -
  have "lines_ok (map text_line [''@grid'', ''1'', ''@grid'', ''0''])" by (simp add: line_eval)
  from parse_lines [OF this]
  have "parse_manual_config (Some (concat (map text_line [''@grid'', ''1'', ''@grid'', ''0'']))) two_cells =
     (GOL_SUCCESS, two_cells\<lparr>grid := [[CELL_DEAD], [CELL_DEAD]]\<rparr>, Some (1, 2))"
    by (simp add: parse_eval two_cells_def)
  with parse_two_cells show ?thesis by blast
qed

section \<open>The claims about random cells, the loop and the allocation\<close>

text \<open>
  Claim C4. Two runs of \<^verbatim>\<open>initialize_grid_random\<close> on grids of the same size with the same
  non-zero seed give the same grid, whatever the time, the state of the generator and the
  cells before. With seed 0 the grid is the one of the seed \<^verbatim>\<open>(unsigned int)time(NULL)\<close>, and
  two runs differ as soon as the first numbers that the generator gives for the two times
  differ in parity.
\<close>

theorem random_initialization_deterministic:
  assumes "grid_ok c1" "grid_ok c2" "rows c1 = rows c2" "cols c1 = cols c2"
    and "seed (config c1) = seed (config c2)"
  shows "(seed (config c1) \<noteq> 0 \<longrightarrow>
            grid (snd (initialize_grid_random libc now1 (g1, c1))) =
            grid (snd (initialize_grid_random libc now2 (g2, c2)))) \<and>
         (seed (config c1) = 0 \<longrightarrow>
            grid (snd (initialize_grid_random libc now1 (g1, c1))) =
            random_grid libc (word_of_int now1) (rows c1) (cols c1)) \<and>
         (seed (config c1) = 0 \<and> 0 < rows c1 \<and> 0 < cols c1 \<and>
          odd (fst (rand libc (srand libc (word_of_int now1)))) \<noteq>
          odd (fst (rand libc (srand libc (word_of_int now2)))) \<longrightarrow>
            grid (snd (initialize_grid_random libc now1 (g1, c1))) \<noteq>
            grid (snd (initialize_grid_random libc now2 (g2, c2))))"
proof -
  have "random_grid libc (word_of_int now1) (rows c1) (cols c1) \<noteq>
        random_grid libc (word_of_int now2) (rows c1) (cols c1)"
    if "0 < rows c1" "0 < cols c1"
      and "odd (fst (rand libc (srand libc (word_of_int now1)))) \<noteq>
           odd (fst (rand libc (srand libc (word_of_int now2))))"
  proof
    assume "random_grid libc (word_of_int now1) (rows c1) (cols c1) =
        random_grid libc (word_of_int now2) (rows c1) (cols c1)"
    then have "random_grid libc (word_of_int now1) (rows c1) (cols c1) ! 0 ! 0 =
        random_grid libc (word_of_int now2) (rows c1) (cols c1) ! 0 ! 0" by simp
    with that show False by (auto simp: random_grid_first cell_of_draw_def split: if_splits)
  qed
  then show ?thesis
    using assms by (auto simp: initialize_grid_random_eq)
qed

theorem random_initialization_deterministic_witness:
  "grid (snd (initialize_grid_random example_libc 1000
       (0, random_ctx 42 [[CELL_DEAD, CELL_DEAD], [CELL_DEAD, CELL_DEAD]]))) =
   grid (snd (initialize_grid_random example_libc 2000
       (77, random_ctx 42 [[CELL_ALIVE, CELL_ALIVE], [CELL_ALIVE, CELL_ALIVE]]))) \<and>
   grid (snd (initialize_grid_random example_libc 1
       (0, random_ctx 0 [[CELL_DEAD, CELL_DEAD], [CELL_DEAD, CELL_DEAD]]))) \<noteq>
   grid (snd (initialize_grid_random example_libc 3
       (0, random_ctx 0 [[CELL_DEAD, CELL_DEAD], [CELL_DEAD, CELL_DEAD]])))"
proof -
  let ?dead = "[[CELL_DEAD, CELL_DEAD], [CELL_DEAD, CELL_DEAD]]"
  let ?alive = "[[CELL_ALIVE, CELL_ALIVE], [CELL_ALIVE, CELL_ALIVE]]"
  have ok: "grid_ok (random_ctx s ?dead)" "grid_ok (random_ctx s ?alive)" for s
    by (simp_all add: grid_ok_def random_ctx_def)
  have f: "rows (random_ctx s g) = 2" "cols (random_ctx s g) = 2"
    "seed (config (random_ctx s g)) = s" for s g
    by (simp_all add: random_ctx_def)
  have "grid (snd (initialize_grid_random example_libc 1000 (0, random_ctx 42 ?dead))) =
      grid (snd (initialize_grid_random example_libc 2000 (77, random_ctx 42 ?alive)))"
    using random_initialization_deterministic [OF ok(1) ok(2), of 42 42 example_libc 1000 0 2000 77]
    by (simp add: f)
  moreover have "grid (snd (initialize_grid_random example_libc 1 (0, random_ctx 0 ?dead))) \<noteq>
      grid (snd (initialize_grid_random example_libc 3 (0, random_ctx 0 ?dead)))"
    using random_initialization_deterministic [OF ok(1) ok(1), of 0 0 example_libc 1 0 3 0]
    by (auto simp: f example_first_draws)
  ultimately show ?thesis by simp
qed

text \<open>
  Claim C7, amended. When a quit event is among the events of a pass, the loop ends after
  that pass, not before its end: the other events of the pass are handled, the grid is
  drawn once, one step of the game is made and the generation counter goes up by one; then
  \<^verbatim>\<open>running\<close> is false and no further pass is made.
\<close>

theorem quit_ends_loop_after_tick:
  assumes "SDL_QUIT \<in> set evs" "st1 = fold (handle_event libc now) evs st"
  shows "\<not> running (tick libc now evs st) \<and>
     effects (tick libc now evs st) =
       effects st1 @ [Rendered (grid (sim_ctx st1)), Delayed FRAME_DELAY_MS] \<and>
     sim_ctx (tick libc now evs st) = simulate_step (sim_ctx st1) \<and>
     generation (tick libc now evs st) = generation st1 + 1 \<and>
     (running st \<and> polled env n = evs \<and> clock env n = now \<longrightarrow>
        run_loop libc env n st = Some (tick libc now evs st))"
proof -
  have r: "\<not> running st1" using assms by (simp add: fold_handle_event_quit)
  then have t: "\<not> running (tick libc now evs st)"
    using assms(2) by (simp add: tick_def Let_def)
  have "run_loop libc env n st = Some (tick libc now evs st)"
    if "running st" "polled env n = evs" "clock env n = now"
    using that t by (subst run_loop.simps, subst run_loop.simps) simp
  with t r show ?thesis using assms(2) by (simp add: tick_def Let_def)
qed

theorem quit_ends_loop_after_tick_witness:
  "run_loop example_libc quit_now 0 start_state = Some (tick example_libc 0 [SDL_QUIT] start_state) \<and>
   \<not> running (tick example_libc 0 [SDL_QUIT] start_state) \<and>
   generation (tick example_libc 0 [SDL_QUIT] start_state) = 1"
proof -
  have "SDL_QUIT \<in> set [SDL_QUIT]" by simp
  from quit_ends_loop_after_tick [OF this refl, of example_libc 0 start_state quit_now 0]
  show ?thesis by (simp add: handle_event_def start_state_def quit_now_def)
qed

text \<open>
  Claim C7 as stated fails: with the window closed at once, \<^verbatim>\<open>run_simulation\<close> on the blinker
  still draws a frame, turns the blinker and counts one generation before it returns.
\<close>

theorem quit_tick_renders_and_steps:
  "run_simulation example_libc quit_now (0, blinker) =
     Some (GOL_SUCCESS,
       \<lparr>running = False, generation = 1,
        sim_ctx = blinker\<lparr>grid :=
          [[CELL_DEAD, CELL_DEAD, CELL_DEAD],
           [CELL_ALIVE, CELL_ALIVE, CELL_ALIVE],
           [CELL_DEAD, CELL_DEAD, CELL_DEAD]]\<rparr>,
        libc_state = 0,
        effects = [Rendered (grid blinker), Delayed 25]\<rparr>)"
proof -
  have "run_loop example_libc quit_now 0 start_state =
      run_loop example_libc quit_now 1 (tick example_libc 0 [SDL_QUIT] start_state)"
    by (subst run_loop.simps) (simp add: start_state_def quit_now_def)
  also have "\<dots> = Some (tick example_libc 0 [SDL_QUIT] start_state)"
    by (subst run_loop.simps) (simp add: quit_tick)
  finally show ?thesis
    by (simp add: run_simulation_def quit_tick start_state_def [symmetric])
qed

text \<open>
  Claim C8. When \<^verbatim>\<open>calloc\<close> fails for the row pointers, or for row \<open>i\<close> after the rows before
  it, \<^verbatim>\<open>allocate_grid\<close> returns \<^verbatim>\<open>GOL_ERROR_MEMORY\<close> (exit code 5) with a null grid pointer and
  with exactly the blocks allocated that were allocated before the call; when every
  \<^verbatim>\<open>calloc\<close> succeeds it returns \<^verbatim>\<open>GOL_SUCCESS\<close> with a grid of \<^verbatim>\<open>rows\<close> by \<^verbatim>\<open>cols\<close> dead cells
  and leaves the older blocks alone.
\<close>

theorem allocate_grid_releases_on_failure:
  assumes "heap_ok h"
  shows "(\<not> succeeds (calls h) \<longrightarrow>
            fst (allocate_grid succeeds (h, ctx)) = GOL_ERROR_MEMORY \<and>
            blocks (fst (snd (allocate_grid succeeds (h, ctx)))) = blocks h \<and>
            snd (snd (allocate_grid succeeds (h, ctx))) = ctx\<lparr>grid_ptr := None\<rparr>) \<and>
         (succeeds (calls h) \<and> i < mrows ctx \<and> (\<forall>k < i. succeeds (Suc (calls h) + k)) \<and>
          \<not> succeeds (Suc (calls h) + i) \<longrightarrow>
            fst (allocate_grid succeeds (h, ctx)) = GOL_ERROR_MEMORY \<and>
            blocks (fst (snd (allocate_grid succeeds (h, ctx)))) = blocks h \<and>
            snd (snd (allocate_grid succeeds (h, ctx))) = ctx\<lparr>grid_ptr := None\<rparr>) \<and>
         (succeeds (calls h) \<and> (\<forall>k < mrows ctx. succeeds (Suc (calls h) + k)) \<longrightarrow>
            fst (allocate_grid succeeds (h, ctx)) = GOL_SUCCESS \<and>
            snd (snd (allocate_grid succeeds (h, ctx))) = ctx\<lparr>grid_ptr := Some (Suc (brk h))\<rparr> \<and>
            grid_of (fst (snd (allocate_grid succeeds (h, ctx))))
                    (snd (snd (allocate_grid succeeds (h, ctx)))) =
              Some (replicate (mrows ctx) (replicate (mcols ctx) CELL_DEAD)) \<and>
            (\<forall>a \<le> brk h. blocks (fst (snd (allocate_grid succeeds (h, ctx)))) a = blocks h a)) \<and>
         result_code GOL_ERROR_MEMORY = 5"
proof -
  let ?c = "ctx\<lparr>grid_ptr := Some (Suc (brk h))\<rparr>"
  have A: "allocate_grid succeeds (h, ctx) =
      (GOL_ERROR_MEMORY, h\<lparr>calls := Suc (calls h)\<rparr>, ctx\<lparr>grid_ptr := None\<rparr>)"
    if "\<not> succeeds (calls h)"
    using that by (rule allocate_grid_no_pointers)
  have B: "allocate_grid succeeds (h, ctx) =
      (GOL_ERROR_MEMORY,
       \<lparr>blocks = blocks h, brk = Suc (brk h) + i, calls = Suc (Suc (calls h) + i)\<rparr>,
       ctx\<lparr>grid_ptr := None\<rparr>)"
    if "succeeds (calls h)" "i < mrows ctx" "\<forall>k < i. succeeds (Suc (calls h) + k)"
      "\<not> succeeds (Suc (calls h) + i)"
  proof -
    have "alloc_rows succeeds (Suc (brk h)) 0 (alloc_state h ?c 0, ?c) =
        (GOL_ERROR_MEMORY,
         \<lparr>blocks = blocks h, brk = Suc (brk h) + i, calls = Suc (Suc (calls h) + i)\<rparr>,
         ?c\<lparr>grid_ptr := None\<rparr>)"
      using assms that by (intro alloc_rows_fails) simp_all
    then show ?thesis using that(1) by (simp add: allocate_grid_rows)
  qed
  have C: "allocate_grid succeeds (h, ctx) = (GOL_SUCCESS, alloc_state h ctx (mrows ctx), ?c)"
    if "succeeds (calls h)" "\<forall>k < mrows ctx. succeeds (Suc (calls h) + k)"
  proof -
    have "alloc_rows succeeds (Suc (brk h)) 0 (alloc_state h ?c 0, ?c) =
        (GOL_SUCCESS, alloc_state h ?c (mrows ?c), ?c)"
      using that by (intro alloc_rows_succeeds) simp_all
    then show ?thesis using that(1) by (simp add: allocate_grid_rows alloc_rows_grid_ptr)
  qed
  have D: "blocks (alloc_state h ctx (mrows ctx)) a = blocks h a" if "a \<le> brk h" for a
    using that by (simp add: alloc_state_def alloc_blocks_def)
  show ?thesis
    using A B C D grid_of_allocated [of h ctx] by simp
qed

theorem allocate_grid_releases_on_failure_witness:
  "fst (allocate_grid (\<lambda>n. n \<noteq> 2) (empty_heap, two_by_two_mem)) = GOL_ERROR_MEMORY \<and>
   blocks (fst (snd (allocate_grid (\<lambda>n. n \<noteq> 2) (empty_heap, two_by_two_mem)))) =
     blocks empty_heap \<and>
   grid_ptr (snd (snd (allocate_grid (\<lambda>n. n \<noteq> 2) (empty_heap, two_by_two_mem)))) = None \<and>
   fst (allocate_grid (\<lambda>n. True) (empty_heap, two_by_two_mem)) = GOL_SUCCESS \<and>
   grid_of (fst (snd (allocate_grid (\<lambda>n. True) (empty_heap, two_by_two_mem))))
     (snd (snd (allocate_grid (\<lambda>n. True) (empty_heap, two_by_two_mem)))) =
     Some [[CELL_DEAD, CELL_DEAD], [CELL_DEAD, CELL_DEAD]]"
proof -
  have ok: "heap_ok empty_heap" by (simp add: heap_ok_def empty_heap_def)
  have e: "calls empty_heap = 0" "brk empty_heap = 0" "mrows two_by_two_mem = 2"
    "mcols two_by_two_mem = 2"
    by (simp_all add: empty_heap_def two_by_two_mem_def)
  have "fst (allocate_grid (\<lambda>n. n \<noteq> 2) (empty_heap, two_by_two_mem)) = GOL_ERROR_MEMORY \<and>
      blocks (fst (snd (allocate_grid (\<lambda>n. n \<noteq> 2) (empty_heap, two_by_two_mem)))) =
        blocks empty_heap \<and>
      grid_ptr (snd (snd (allocate_grid (\<lambda>n. n \<noteq> 2) (empty_heap, two_by_two_mem)))) = None"
    using allocate_grid_releases_on_failure
      [OF ok, where succeeds = "\<lambda>n. n \<noteq> 2" and i = 1 and ctx = two_by_two_mem]
    by (simp add: e)
  moreover have "fst (allocate_grid (\<lambda>n. True) (empty_heap, two_by_two_mem)) = GOL_SUCCESS \<and>
      grid_of (fst (snd (allocate_grid (\<lambda>n. True) (empty_heap, two_by_two_mem))))
        (snd (snd (allocate_grid (\<lambda>n. True) (empty_heap, two_by_two_mem)))) =
        Some [[CELL_DEAD, CELL_DEAD], [CELL_DEAD, CELL_DEAD]]"
    using allocate_grid_releases_on_failure
      [OF ok, where succeeds = "\<lambda>n. True" and i = 0 and ctx = two_by_two_mem]
    by (auto simp: e eval_nat_numeral)
  ultimately show ?thesis by simp
qed

end
